theory Spec2Isabelle
  imports Main "HOL-Library.Monad_Syntax"
begin

section \<open>Texts and character classes\<close>

text \<open>
  The program is a Python 3 script (\<^verbatim>\<open>src/v2.py\<close>).  A Python \<^verbatim>\<open>str\<close> is modelled as a
  \<^typ>\<open>string\<close>; a \<^typ>\<open>char\<close> stands for the code point with the same number, so the
  model covers texts over the code points U+0000 .. U+00FF.  On this range the tables
  below are the ones CPython uses for \<^verbatim>\<open>\w\<close>, \<^verbatim>\<open>\s\<close>, \<^verbatim>\<open>\d\<close>, \<^verbatim>\<open>str.strip\<close> and
  \<^verbatim>\<open>str.lower\<close> on \<^verbatim>\<open>str\<close> objects.
\<close>

definition cp :: "char \<Rightarrow> nat" where
  "cp c = of_char c"

definition in_range :: "nat \<Rightarrow> nat \<Rightarrow> nat \<Rightarrow> bool" where
  "in_range lo hi n = (lo \<le> n \<and> n \<le> hi)"

definition is_digit :: "char \<Rightarrow> bool" where
  "is_digit c = in_range 48 57 (cp c)"

definition is_space :: "char \<Rightarrow> bool" where
  "is_space c = (let n = cp c in in_range 9 13 n \<or> in_range 28 32 n \<or> n = 133 \<or> n = 160)"

definition is_word :: "char \<Rightarrow> bool" where
  "is_word c = (let n = cp c in
     in_range 48 57 n \<or> in_range 65 90 n \<or> n = 95 \<or> in_range 97 122 n
     \<or> n = 170 \<or> in_range 178 179 n \<or> n = 181 \<or> in_range 185 186 n
     \<or> in_range 188 190 n \<or> in_range 192 214 n \<or> in_range 216 246 n
     \<or> in_range 248 255 n)"

definition lower_char :: "char \<Rightarrow> char" where
  "lower_char c = (let n = cp c in
     if in_range 65 90 n \<or> in_range 192 214 n \<or> in_range 216 222 n
     then char_of (n + 32) else c)"

definition py_lower :: "string \<Rightarrow> string" where
  "py_lower s = map lower_char s"

text \<open>\<^verbatim>\<open>s.strip()\<close>: drop the white space at both ends.\<close>

definition py_strip :: "string \<Rightarrow> string" where
  "py_strip s = rev (dropWhile is_space (rev (dropWhile is_space s)))"

text \<open>\<^verbatim>\<open>k in s\<close> on strings: \<open>k\<close> occurs in \<open>s\<close> as a contiguous piece.\<close>

fun starts_with :: "string \<Rightarrow> string \<Rightarrow> bool" where
  "starts_with [] s = True"
| "starts_with (k # ks) [] = False"
| "starts_with (k # ks) (c # cs) = (k = c \<and> starts_with ks cs)"

fun py_in :: "string \<Rightarrow> string \<Rightarrow> bool" where
  "py_in k [] = (k = [])"
| "py_in k (c # cs) = (starts_with k (c # cs) \<or> py_in k cs)"

text \<open>\<^verbatim>\<open>sep.join(xs)\<close> and \<^verbatim>\<open>s.split("\n")\<close>.\<close>

fun py_join :: "string \<Rightarrow> string list \<Rightarrow> string" where
  "py_join sep [] = []"
| "py_join sep [x] = x"
| "py_join sep (x # y # ys) = x @ sep @ py_join sep (y # ys)"

fun split_lines :: "string \<Rightarrow> string list" where
  "split_lines [] = [[]]"
| "split_lines (c # cs) =
     (if c = CHR 0x0A then [] # split_lines cs
      else (case split_lines cs of l # ls \<Rightarrow> (c # l) # ls | [] \<Rightarrow> [[c]]))"


section \<open>Regular expressions as \<^verbatim>\<open>re\<close> matches them\<close>

text \<open>
  The patterns of the script use literals, the classes \<^verbatim>\<open>.\<close>, \<^verbatim>\<open>\d\<close>, \<^verbatim>\<open>\s\<close> and bracket
  sets, concatenation, alternation, \<^verbatim>\<open>?\<close>, \<^verbatim>\<open>*\<close> and \<^verbatim>\<open>+\<close> on single characters, \<^verbatim>\<open>\b\<close>,
  the look-aheads \<^verbatim>\<open>(?=...)\<close> and \<^verbatim>\<open>(?!...)\<close>, and numbered groups.  A pattern is written
  as its syntax tree.
\<close>

datatype atom = Lit char | Dot | Digit | Space | OneOf string

datatype regex =
    Eps
  | Atom atom
  | Seq regex regex
  | Alt regex regex
  | Opt regex
  | Star atom
  | Plus atom
  | WordB
  | Ahead regex
  | NotAhead regex
  | Group nat regex

text \<open>Does the text character \<open>c\<close> match the atom?  \<open>ic\<close> is \<^verbatim>\<open>re.IGNORECASE\<close>.\<close>

fun atom_ok :: "bool \<Rightarrow> atom \<Rightarrow> char \<Rightarrow> bool" where
  "atom_ok ic (Lit l) c = (if ic then lower_char c = lower_char l else c = l)"
| "atom_ok ic Dot c = (c \<noteq> CHR 0x0A)"
| "atom_ok ic Digit c = is_digit c"
| "atom_ok ic Space c = is_space c"
| "atom_ok ic (OneOf ls) c =
     (if ic then lower_char c \<in> set (map lower_char ls) else c \<in> set ls)"

text \<open>
  A position in the text is the character before it (if any), the text from it on, and the
  groups captured so far (most recent first).
\<close>

type_synonym mstate = "char option \<times> string \<times> (nat \<times> string) list"

definition word_before :: "char option \<Rightarrow> bool" where
  "word_before p = (case p of None \<Rightarrow> False | Some c \<Rightarrow> is_word c)"

definition word_after :: "string \<Rightarrow> bool" where
  "word_after s = (case s of [] \<Rightarrow> False | c # _ \<Rightarrow> is_word c)"

text \<open>\<^verbatim>\<open>x*\<close> on one character class, greedy: the longest run first.\<close>

fun star_run :: "bool \<Rightarrow> atom \<Rightarrow> char option \<Rightarrow> string \<Rightarrow> (nat \<times> string) list \<Rightarrow> mstate list" where
  "star_run ic a p [] caps = [(p, [], caps)]"
| "star_run ic a p (c # cs) caps =
     (if atom_ok ic a c then star_run ic a (Some c) cs caps else []) @ [(p, c # cs, caps)]"

text \<open>
  The backtracking matcher: every way the pattern can match at a position, in the order in
  which \<^verbatim>\<open>re\<close> tries them.  The head of the list is the match \<^verbatim>\<open>re\<close> reports.
\<close>

fun rm :: "bool \<Rightarrow> regex \<Rightarrow> mstate \<Rightarrow> mstate list" where
  "rm ic Eps st = [st]"
| "rm ic (Atom a) (p, s, caps) =
     (case s of [] \<Rightarrow> [] | c # cs \<Rightarrow> if atom_ok ic a c then [(Some c, cs, caps)] else [])"
| "rm ic (Seq r1 r2) st = concat (map (rm ic r2) (rm ic r1 st))"
| "rm ic (Alt r1 r2) st = rm ic r1 st @ rm ic r2 st"
| "rm ic (Opt r) st = rm ic r st @ [st]"
| "rm ic (Star a) (p, s, caps) = star_run ic a p s caps"
| "rm ic (Plus a) (p, s, caps) =
     (case s of [] \<Rightarrow> [] | c # cs \<Rightarrow> if atom_ok ic a c then star_run ic a (Some c) cs caps else [])"
| "rm ic WordB (p, s, caps) = (if word_before p \<noteq> word_after s then [(p, s, caps)] else [])"
| "rm ic (Ahead r) (p, s, caps) =
     (case rm ic r (p, s, caps) of [] \<Rightarrow> [] | (_, _, caps') # _ \<Rightarrow> [(p, s, caps')])"
| "rm ic (NotAhead r) st = (case rm ic r st of [] \<Rightarrow> [st] | _ # _ \<Rightarrow> [])"
| "rm ic (Group n r) (p, s, caps) =
     map (\<lambda>(p', s', caps'). (p', s', (n, take (length s - length s') s) # caps'))
       (rm ic r (p, s, caps))"

text \<open>A match object: \<^verbatim>\<open>m.group(0)\<close> and the numbered groups.\<close>

record rmatch =
  group0 :: string
  groups :: "(nat \<times> string) list"

definition match_at :: "bool \<Rightarrow> regex \<Rightarrow> char option \<Rightarrow> string \<Rightarrow> rmatch option" where
  "match_at ic r p s =
     (case rm ic r (p, s, []) of
        [] \<Rightarrow> None
      | (_, s', caps) # _ \<Rightarrow> Some \<lparr>group0 = take (length s - length s') s, groups = caps\<rparr>)"

text \<open>\<^verbatim>\<open>re.search\<close>: the first position, from the left, at which the pattern matches.\<close>

fun search_from :: "bool \<Rightarrow> regex \<Rightarrow> char option \<Rightarrow> string \<Rightarrow> rmatch option" where
  "search_from ic r p [] = match_at ic r p []"
| "search_from ic r p (c # cs) =
     (case match_at ic r p (c # cs) of
        Some m \<Rightarrow> Some m
      | None \<Rightarrow> search_from ic r (Some c) cs)"

definition re_search :: "bool \<Rightarrow> regex \<Rightarrow> string \<Rightarrow> rmatch option" where
  "re_search ic r text = search_from ic r None text"

definition group_n :: "rmatch \<Rightarrow> nat \<Rightarrow> string option" where
  "group_n m n = map_of (groups m) n"

text \<open>Abbreviations for writing patterns.\<close>

fun seqs :: "regex list \<Rightarrow> regex" where
  "seqs [] = Eps"
| "seqs [r] = r"
| "seqs (r # rs) = Seq r (seqs rs)"

fun alts :: "regex list \<Rightarrow> regex" where
  "alts [] = NotAhead Eps"
| "alts [r] = r"
| "alts (r # rs) = Alt r (alts rs)"

definition lit :: "string \<Rightarrow> regex" where
  "lit s = seqs (map (\<lambda>c. Atom (Lit c)) s)"

text \<open>\<^verbatim>\<open>\bw\b\<close>\<close>

definition wordp :: "string \<Rightarrow> regex" where
  "wordp w = seqs [WordB, lit w, WordB]"

section \<open>The skill dictionary\<close>

text \<open>
  \<^verbatim>\<open>SKILLS\<close> (lines 67 to 149): the canonical name of each skill and its pattern, in the
  order of the source.  Each pattern is matched with \<^verbatim>\<open>re.IGNORECASE\<close>.
\<close>

definition dot_opt :: regex where
  "dot_opt = Opt (Atom (Lit CHR ''.''))"

definition any_opt :: regex where
  "any_opt = Opt (Atom Dot)"

definition SKILLS :: "(string \<times> regex) list" where
  "SKILLS = [
    (''python'', wordp ''python''),
    (''java'', seqs [WordB, lit ''java'', WordB, NotAhead (lit ''script'')]),
    (''javascript'', Alt (wordp ''javascript'') (wordp ''js'')),
    (''typescript'', Alt (wordp ''typescript'') (wordp ''ts'')),
    (''c++'', Alt (wordp ''c++'') (wordp ''cpp'')),
    (''c#'', Alt (wordp ''c#'') (wordp ''csharp'')),
    (''ruby'', wordp ''ruby''),
    (''php'', wordp ''php''),
    (''swift'', wordp ''swift''),
    (''kotlin'', wordp ''kotlin''),
    (''golang'', Alt (wordp ''golang'') (seqs [WordB, lit ''go'', Plus Space, lit ''lang'', WordB])),
    (''rust'', wordp ''rust''),
    (''scala'', wordp ''scala''),
    (''r-lang'', seqs [WordB, lit ''R'', WordB,
        Ahead (seqs [Star Space,
          Group 1 (alts [lit ''programming'', lit ''language'', lit ''script'', lit ''studio''])])]),
    (''matlab'', wordp ''matlab''),
    (''dart'', wordp ''dart''),
    (''react'', Alt (seqs [WordB, lit ''react'', dot_opt, lit ''js'', WordB]) (wordp ''react'')),
    (''three.js'', Alt (seqs [WordB, lit ''three'', dot_opt, lit ''js'', WordB]) (wordp ''3js'')),
    (''react-three-fiber'',
        Alt (seqs [WordB, lit ''react'', any_opt, lit ''three'', any_opt, lit ''fiber'', WordB])
            (wordp ''r3f'')),
    (''nextjs'', Alt (seqs [WordB, lit ''next'', dot_opt, lit ''js'', WordB]) (wordp ''nextjs'')),
    (''angular'', wordp ''angular''),
    (''vue'', alts [seqs [WordB, lit ''vue'', dot_opt, lit ''js'', WordB], wordp ''vuejs'', wordp ''vue'']),
    (''node'', Alt (seqs [WordB, lit ''node'', dot_opt, lit ''js'', WordB]) (wordp ''nodejs'')),
    (''django'', wordp ''django''),
    (''flask'', wordp ''flask''),
    (''spring'', seqs [WordB, lit ''spring'', Star Space, Opt (Group 1 (lit ''boot'')), WordB]),
    (''fastapi'', wordp ''fastapi''),
    (''flutter'', wordp ''flutter''),
    (''android'', wordp ''android''),
    (''ios'', alts [wordp ''ios'', wordp ''swift'', wordp ''xcode'']),
    (''unity'', seqs [WordB, lit ''unity'', Star Space, Opt (Group 1 (lit ''3d'')), WordB]),
    (''unreal'', seqs [WordB, lit ''unreal'', Opt (Group 1 (seqs [Star Space, lit ''engine''])), WordB]),
    (''blender'', wordp ''blender''),
    (''godot'', wordp ''godot''),
    (''gsap'', wordp ''gsap''),
    (''webgl'', wordp ''webgl''),
    (''pyqt'', seqs [WordB, lit ''pyqt'', Star Digit, WordB]),
    (''machine learning'', seqs [WordB, lit ''machine'', Plus Space, lit ''learning'', WordB]),
    (''deep learning'', seqs [WordB, lit ''deep'', Plus Space, lit ''learning'', WordB]),
    (''nlp'', Alt (wordp ''nlp'')
        (seqs [WordB, lit ''natural'', Plus Space, lit ''language'', Plus Space, lit ''processing'', WordB])),
    (''computer vision'', seqs [WordB, lit ''computer'', Plus Space, lit ''vision'', WordB]),
    (''tensorflow'', wordp ''tensorflow''),
    (''pytorch'', wordp ''pytorch''),
    (''keras'', wordp ''keras''),
    (''scikit-learn'', Alt (seqs [WordB, lit ''scikit'', any_opt, lit ''learn'', WordB]) (wordp ''sklearn'')),
    (''pandas'', wordp ''pandas''),
    (''numpy'', wordp ''numpy''),
    (''data analysis'', seqs [WordB, lit ''data'', Plus Space, lit ''anal'',
        Group 1 (Alt (lit ''ysis'') (lit ''ytics'')), WordB]),
    (''data science'', seqs [WordB, lit ''data'', Plus Space, lit ''science'', WordB]),
    (''statistics'', Alt (wordp ''statistics'') (wordp ''statistical'')),
    (''spark'', alts [seqs [WordB, lit ''apache'', Plus Space, lit ''spark'', WordB],
        wordp ''pyspark'', wordp ''spark'']),
    (''hadoop'', wordp ''hadoop''),
    (''aws'', Alt (wordp ''aws'')
        (seqs [WordB, lit ''amazon'', Plus Space, lit ''web'', Plus Space, lit ''services'', WordB])),
    (''azure'', wordp ''azure''),
    (''gcp'', Alt (wordp ''gcp'') (seqs [WordB, lit ''google'', Plus Space, lit ''cloud'', WordB])),
    (''docker'', wordp ''docker''),
    (''kubernetes'', Alt (wordp ''kubernetes'') (wordp ''k8s'')),
    (''terraform'', wordp ''terraform''),
    (''ci/cd'', Alt (wordp ''ci/cd'')
        (seqs [WordB, lit ''continuous'', Plus Space, lit ''integration'', WordB])),
    (''jenkins'', wordp ''jenkins''),
    (''github actions'', seqs [WordB, lit ''github'', Plus Space, lit ''actions'', WordB]),
    (''sql'', wordp ''sql''),
    (''postgresql'', Alt (wordp ''postgresql'') (wordp ''postgres'')),
    (''mysql'', wordp ''mysql''),
    (''mongodb'', Alt (wordp ''mongodb'') (wordp ''mongo'')),
    (''redis'', wordp ''redis''),
    (''elasticsearch'', wordp ''elasticsearch''),
    (''agile'', wordp ''agile''),
    (''scrum'', wordp ''scrum''),
    (''project management'', seqs [WordB, lit ''project'', Plus Space, lit ''management'', WordB]),
    (''leadership'', wordp ''leadership''),
    (''linux'', alts [wordp ''linux'', wordp ''ubuntu'', wordp ''debian'']),
    (''devops'', wordp ''devops''),
    (''cybersecurity'', Alt (wordp ''cybersecurity'') (wordp ''security'')),
    (''android studio'', seqs [WordB, lit ''android'', Plus Space, lit ''studio'', WordB])
  ]"

definition EDUCATION_KEYWORDS :: "string list" where
  "EDUCATION_KEYWORDS = [
    ''bachelor'', ''b.sc'', ''b.tech'', ''b.e'', ''master'', ''m.sc'', ''m.tech'',
    ''mba'', ''phd'', ''doctorate'', ''degree'', ''university'', ''college'', ''institute'']"


section \<open>Resume extraction\<close>

text \<open>
  \<^verbatim>\<open>_skill_match\<close>: every skill whose pattern is found in the text, with the pattern and the
  text it matched, in the order of \<^verbatim>\<open>SKILLS\<close>.
\<close>

fun skill_match_loop :: "(string \<times> regex) list \<Rightarrow> string \<Rightarrow> (string \<times> regex \<times> string) list" where
  "skill_match_loop [] text = []"
| "skill_match_loop ((canonical, pattern) # rest) text =
     (case re_search True pattern text of
        Some m \<Rightarrow> (canonical, pattern, group0 m) # skill_match_loop rest text
      | None \<Rightarrow> skill_match_loop rest text)"

definition skill_match :: "string \<Rightarrow> (string \<times> regex \<times> string) list" where
  "skill_match text = skill_match_loop SKILLS text"

text \<open>The \<^verbatim>\<open>skills\<close> field of the profile: \<^verbatim>\<open>[c for c, _, _ in skill_hits]\<close>.\<close>

definition extracted_skills :: "string \<Rightarrow> string list" where
  "extracted_skills text = map fst (skill_match text)"

subsection \<open>Experience years\<close>

text \<open>
  \<^verbatim>\<open>_extract_experience_years_traced\<close> (lines 286 to 310).  The three phrase patterns are
  searched in the lower-cased text, without \<^verbatim>\<open>re.IGNORECASE\<close>; the year pattern is
  collected from the text as it is.
\<close>

definition years_opt :: "regex list" where
  "years_opt = [lit ''year'', Opt (Atom (Lit CHR ''s''))]"

definition number_plus :: "regex list" where
  "number_plus = [Group 1 (Plus Digit), Opt (Atom (Lit CHR ''+'')), Star Space]"

definition explicit_phrase_1 :: regex where
  "explicit_phrase_1 = seqs (number_plus @ years_opt @
     [Star Space, lit ''of'', Star Space, Opt (seqs [lit ''professional'', Star Space]),
      lit ''experience''])"

definition explicit_phrase_2 :: regex where
  "explicit_phrase_2 = seqs (number_plus @ years_opt @ [Star Space, lit ''experience''])"

definition explicit_phrase_3 :: regex where
  "explicit_phrase_3 = seqs ([lit ''experience'', Star Space, Atom (OneOf '':-''), Star Space]
     @ number_plus @ years_opt)"

definition patterns :: "(string \<times> regex) list" where
  "patterns = [(''explicit_phrase_1'', explicit_phrase_1),
               (''explicit_phrase_2'', explicit_phrase_2),
               (''explicit_phrase_3'', explicit_phrase_3)]"

text \<open>\<^verbatim>\<open>\b(19[89]\d|20[012]\d)\b\<close>\<close>

definition year_pattern :: regex where
  "year_pattern = seqs [WordB,
     Group 1 (Alt (seqs [lit ''19'', Atom (OneOf ''89''), Atom Digit])
                  (seqs [lit ''20'', Atom (OneOf ''012''), Atom Digit])),
     WordB]"

text \<open>
  \<^verbatim>\<open>re.findall\<close> with one group: scan from the left; after a match go on behind it.  (After
  an empty match the scan moves on by one character; the year pattern never matches the
  empty string.)
\<close>

function findall_from :: "bool \<Rightarrow> regex \<Rightarrow> char option \<Rightarrow> string \<Rightarrow> rmatch list" where
  "findall_from ic r p s =
     (case rm ic r (p, s, []) of
        [] \<Rightarrow> (case s of [] \<Rightarrow> [] | c # cs \<Rightarrow> findall_from ic r (Some c) cs)
      | (p', s', caps) # _ \<Rightarrow>
          \<lparr>group0 = take (length s - length s') s, groups = caps\<rparr> #
          (if length s' < length s then findall_from ic r p' s'
           else (case s of [] \<Rightarrow> [] | c # cs \<Rightarrow> findall_from ic r (Some c) cs)))"
  by pat_completeness auto
termination
  by (relation "measure (\<lambda>(ic, r, p, s). length s)") auto

text \<open>What \<^verbatim>\<open>findall\<close> lists for a match: its group 1 (the empty string if it took no part).\<close>

definition group1 :: "rmatch \<Rightarrow> string" where
  "group1 m = (case group_n m 1 of Some g \<Rightarrow> g | None \<Rightarrow> [])"

definition re_findall1 :: "bool \<Rightarrow> regex \<Rightarrow> string \<Rightarrow> string list" where
  "re_findall1 ic r text = map group1 (findall_from ic r None text)"

text \<open>The value of a string of decimal digits.\<close>

definition decimal :: "string \<Rightarrow> int" where
  "decimal s = foldl (\<lambda>n c. 10 * n + int (cp c - 48)) 0 s"

text \<open>
  \<^verbatim>\<open>int(s)\<close> for a text \<open>s\<close>.  White space around the number is dropped (for \<^verbatim>\<open>int\<close> that is
  tab to carriage return, the blank, U+0085 and U+00A0), a sign may stand before the digits,
  and single underscores may stand between digits; anything else raises \<^verbatim>\<open>ValueError\<close>.  So
  does a number of more than 4300 digits, leading zeros counted: that is the interpreter's
  limit \<^verbatim>\<open>sys.int_info.default_max_str_digits\<close>, which the script leaves as it is.
  \<^verbatim>\<open>int(None)\<close> raises \<^verbatim>\<open>TypeError\<close>.
\<close>

datatype py_error = Value_Error | Type_Error

definition is_int_space :: "char \<Rightarrow> bool" where
  "is_int_space c = (let n = cp c in in_range 9 13 n \<or> n = 32 \<or> n = 133 \<or> n = 160)"

fun int_digits :: "string \<Rightarrow> string option" where
  "int_digits [] = None"
| "int_digits [c] = (if is_digit c then Some [c] else None)"
| "int_digits (c # d # cs) =
     (if \<not> is_digit c then None
      else if d = CHR ''_'' then map_option ((#) c) (int_digits cs)
      else map_option ((#) c) (int_digits (d # cs)))"

definition max_str_digits :: nat where
  "max_str_digits = 4300"

definition py_int :: "string \<Rightarrow> py_error + int" where
  "py_int s =
     (let t = dropWhile is_int_space (rev (dropWhile is_int_space (rev s)));
          (neg, body) = (case t of
                           [] \<Rightarrow> (False, t)
                         | c # cs \<Rightarrow> if c = CHR ''-'' then (True, cs)
                                    else if c = CHR ''+'' then (False, cs) else (False, t))
      in case int_digits body of
           None \<Rightarrow> Inl Value_Error
         | Some ds \<Rightarrow>
             if length ds > max_str_digits then Inl Value_Error
             else Inr (if neg then - decimal ds else decimal ds))"

text \<open>\<^verbatim>\<open>int(y) for y in years\<close>: the first conversion that raises ends the whole.\<close>

fun int_all :: "string list \<Rightarrow> py_error + int list" where
  "int_all [] = Inr []"
| "int_all (y # ys) =
     (case py_int y of
        Inl e \<Rightarrow> Inl e
      | Inr n \<Rightarrow> (case int_all ys of Inl e \<Rightarrow> Inl e | Inr ns \<Rightarrow> Inr (n # ns)))"

text \<open>The trace returned with the number of years: its \<^verbatim>\<open>method\<close> and the other entries.\<close>

datatype exp_trace =
    Explicit_Phrase string regex string int
  | Year_Span_Fallback "int list" int
  | Not_Detected "int list"

fun trace_method :: "exp_trace \<Rightarrow> string" where
  "trace_method (Explicit_Phrase name pat matched result) = name"
| "trace_method (Year_Span_Fallback years_found span) = ''year_span_fallback''"
| "trace_method (Not_Detected years_found) = ''not_detected''"

text \<open>The fallback: the span of the 4-digit years found in the text.\<close>

definition year_span_fallback :: "string \<Rightarrow> py_error + int \<times> exp_trace" where
  "year_span_fallback text =
     (let years = re_findall1 False year_pattern text
      in case int_all years of
           Inl e \<Rightarrow> Inl e
         | Inr ns \<Rightarrow>
             (let unique_years = sort (remdups ns)
              in if length unique_years \<ge> 2
                 then (let span = last unique_years - hd unique_years
                       in Inr (span, Year_Span_Fallback unique_years span))
                 else Inr (0, Not_Detected unique_years)))"

text \<open>
  The loop over the phrase patterns, with its early return.  The result is what the function
  returns, or the exception that \<^verbatim>\<open>int(m.group(1))\<close> raises: \<^verbatim>\<open>TypeError\<close> when the group took
  no part in the match, \<^verbatim>\<open>ValueError\<close> when \<^verbatim>\<open>int\<close> refuses the captured text.
\<close>

fun phrase_loop :: "(string \<times> regex) list \<Rightarrow> string \<Rightarrow> string \<Rightarrow> py_error + int \<times> exp_trace" where
  "phrase_loop [] tlow text = year_span_fallback text"
| "phrase_loop ((name, pat) # rest) tlow text =
     (case re_search False pat tlow of
        Some m \<Rightarrow>
          (case group_n m 1 of
             None \<Rightarrow> Inl Type_Error
           | Some g \<Rightarrow>
               (case py_int g of
                  Inl e \<Rightarrow> Inl e
                | Inr n \<Rightarrow> Inr (n, Explicit_Phrase name pat (group0 m) n)))
      | None \<Rightarrow> phrase_loop rest tlow text)"

definition extract_experience_years_traced :: "string \<Rightarrow> py_error + int \<times> exp_trace" where
  "extract_experience_years_traced text = phrase_loop patterns (py_lower text) text"

subsection \<open>Education lines\<close>

text \<open>\<^verbatim>\<open>_extract_education\<close> (lines 327 to 333).\<close>

fun education_loop :: "string list \<Rightarrow> string list \<Rightarrow> string list" where
  "education_loop [] edu = edu"
| "education_loop (line # lines) edu =
     (let ll = py_lower line
      in if list_ex (\<lambda>k. py_in k ll) EDUCATION_KEYWORDS \<and> length (py_strip line) > 5
         then education_loop lines (edu @ [py_strip line])
         else education_loop lines edu)"

definition extract_education :: "string \<Rightarrow> string list" where
  "extract_education text = take 5 (education_loop (split_lines text) [])"


section \<open>Ranking\<close>

text \<open>
  A job is the dictionary \<^verbatim>\<open>_normalize_job\<close> builds (lines 461 to 477), one field for each
  of its keys; a field read with \<^verbatim>\<open>.get\<close> is \<open>None\<close> when the key is absent.  \<^verbatim>\<open>err\<close> is
  the key \<^verbatim>\<open>"error"\<close>, which \<^verbatim>\<open>_normalize_job\<close> never sets.  Tags are strings.
\<close>

record job =
  title :: "string option"
  company :: "string option"
  location :: "string option"
  description :: "string option"
  salary_min :: "int option"
  salary_max :: "int option"
  link :: "string option"
  source :: "string option"
  tags :: "string list option"
  match_score :: int
  matching_skills :: "string list"
  err :: "string option"

text \<open>
  \<^verbatim>\<open>resume_data\<close> is what \<^verbatim>\<open>extract_resume_pdf\<close> returns (lines 192 to 281): either the
  dictionary with the single key \<^verbatim>\<open>"error"\<close>, or a profile with all of its keys.
\<close>

record profile =
  raw_text :: string
  skills :: "string list"
  experience_years :: int
  seniority :: string
  education :: "string list"
  job_titles :: "string list"
  contact_info :: "(string \<times> string) list"

datatype resume_data = Resume_Error string | Resume profile

text \<open>\<^verbatim>\<open>not resume_data\<close>: neither dictionary is empty.\<close>

fun resume_falsy :: "resume_data \<Rightarrow> bool" where
  "resume_falsy (Resume_Error e) = False"
| "resume_falsy (Resume p) = False"

text \<open>\<^verbatim>\<open>"error" in resume_data\<close>\<close>

fun has_error :: "resume_data \<Rightarrow> bool" where
  "has_error (Resume_Error e) = True"
| "has_error (Resume p) = False"

text \<open>\<^verbatim>\<open>resume_data.get("skills", [])\<close> and the like.\<close>

fun get_skills :: "resume_data \<Rightarrow> string list" where
  "get_skills (Resume_Error e) = []"
| "get_skills (Resume p) = skills p"

fun get_job_titles :: "resume_data \<Rightarrow> string list" where
  "get_job_titles (Resume_Error e) = []"
| "get_job_titles (Resume p) = job_titles p"

fun get_seniority :: "resume_data \<Rightarrow> string" where
  "get_seniority (Resume_Error e) = []"
| "get_seniority (Resume p) = seniority p"

text \<open>\<^verbatim>\<open>job.get(k) or ""\<close> and \<^verbatim>\<open>job.get("tags", [])\<close>\<close>

definition or_empty :: "string option \<Rightarrow> string" where
  "or_empty v = (case v of None \<Rightarrow> [] | Some s \<Rightarrow> s)"

definition get_tags :: "job \<Rightarrow> string list" where
  "get_tags j = (case tags j of None \<Rightarrow> [] | Some ts \<Rightarrow> ts)"

text \<open>
  \<^verbatim>\<open>skill_regex\<close>: the entries of \<^verbatim>\<open>SKILLS\<close> whose name is among the user's skills, in the
  order of \<^verbatim>\<open>SKILLS\<close> (the names in \<^verbatim>\<open>SKILLS\<close> are distinct, so the dictionary has one
  entry for each of them).
\<close>

definition skill_regex :: "string list \<Rightarrow> (string \<times> regex) list" where
  "skill_regex user_skills = filter (\<lambda>(c, p). c \<in> set user_skills) SKILLS"

definition blob :: "job \<Rightarrow> string" where
  "blob j = or_empty (title j) @ '' '' @ or_empty (description j) @ '' '' @
            py_join '' '' (get_tags j)"

definition matching :: "string list \<Rightarrow> job \<Rightarrow> string list" where
  "matching user_skills j =
     map fst (filter (\<lambda>(s, rx). re_search True rx (blob j) \<noteq> None) (skill_regex user_skills))"

definition title_bonus :: "string list \<Rightarrow> job \<Rightarrow> int" where
  "title_bonus user_titles j =
     (if list_ex (\<lambda>t. py_in t (py_lower (or_empty (title j)))) (map py_lower user_titles)
      then 12 else 0)"

definition seniority_bonus :: "string \<Rightarrow> job \<Rightarrow> int" where
  "seniority_bonus user_seniority j =
     (if user_seniority \<noteq> [] \<and> py_in user_seniority (py_lower (or_empty (title j)))
      then 4 else 0)"

text \<open>\<^verbatim>\<open>any(re.search(p, str(tag), re.IGNORECASE) for c, p in SKILLS if c in user_skills)\<close>\<close>

definition tag_matches :: "string list \<Rightarrow> string \<Rightarrow> bool" where
  "tag_matches user_skills tag =
     list_ex (\<lambda>(c, p). re_search True p tag \<noteq> None) (skill_regex user_skills)"

definition tag_hits :: "string list \<Rightarrow> job \<Rightarrow> string list" where
  "tag_hits user_skills j = filter (tag_matches user_skills) (get_tags j)"

definition score :: "resume_data \<Rightarrow> job \<Rightarrow> int" where
  "score rd j =
     int (length (matching (get_skills rd) j)) * 6
     + title_bonus (get_job_titles rd) j
     + seniority_bonus (get_seniority rd) j
     + int (length (tag_hits (get_skills rd) j)) * 3"

text \<open>The copy of the job with the two result keys set.\<close>

definition scored_copy :: "resume_data \<Rightarrow> job \<Rightarrow> job" where
  "scored_copy rd j =
     j\<lparr>match_score := score rd j, matching_skills := matching (get_skills rd) j\<rparr>"

text \<open>The loop over the jobs: a job with the key \<^verbatim>\<open>"error"\<close> is skipped.\<close>

fun scored_loop :: "resume_data \<Rightarrow> job list \<Rightarrow> job list \<Rightarrow> job list" where
  "scored_loop rd [] scored = scored"
| "scored_loop rd (j # jobs) scored =
     (if err j \<noteq> None then scored_loop rd jobs scored
      else scored_loop rd jobs (scored @ [scored_copy rd j]))"

text \<open>
  \<^verbatim>\<open>scored.sort(key=lambda x: x["match_score"], reverse=True)\<close>.  Python's sort is stable,
  and with \<^verbatim>\<open>reverse=True\<close> elements with equal keys keep their order: the result is the
  one of inserting each element, from the right, before the first element whose key is not
  greater.
\<close>

fun insert_desc :: "('a \<Rightarrow> int) \<Rightarrow> 'a \<Rightarrow> 'a list \<Rightarrow> 'a list" where
  "insert_desc key x [] = [x]"
| "insert_desc key x (y # ys) =
     (if key y > key x then y # insert_desc key x ys else x # y # ys)"

fun sort_desc :: "('a \<Rightarrow> int) \<Rightarrow> 'a list \<Rightarrow> 'a list" where
  "sort_desc key [] = []"
| "sort_desc key (x # xs) = insert_desc key x (sort_desc key xs)"

text \<open>\<^verbatim>\<open>rank_jobs_by_resume\<close> (lines 602 to 669).\<close>

definition rank_jobs_by_resume :: "job list \<Rightarrow> resume_data \<Rightarrow> job list" where
  "rank_jobs_by_resume jobs rd =
     (if jobs = [] \<or> resume_falsy rd \<or> has_error rd then jobs
      else sort_desc match_score (scored_loop rd jobs []))"

text \<open>\<^verbatim>\<open>_normalize_job\<close>, for the jobs the searches produce.\<close>

definition or_na :: "string option \<Rightarrow> string" where
  "or_na v = (case v of None \<Rightarrow> ''N/A'' | Some s \<Rightarrow> if s = [] then ''N/A'' else s)"

definition normalize_job ::
  "string option \<Rightarrow> string option \<Rightarrow> string option \<Rightarrow> string option \<Rightarrow> int option \<Rightarrow>
   int option \<Rightarrow> string option \<Rightarrow> string \<Rightarrow> string list option \<Rightarrow> job" where
  "normalize_job jtitle jcompany jlocation jdescription smin smax jlink jsource jtags =
     \<lparr>title = Some (or_na jtitle), company = Some (or_na jcompany),
      location = Some (or_na jlocation),
      description = Some (py_strip (take 600 (or_empty jdescription))),
      salary_min = smin, salary_max = smax, link = Some (or_na jlink), source = Some jsource,
      tags = Some (case jtags of None \<Rightarrow> [] | Some ts \<Rightarrow> ts),
      match_score = 0, matching_skills = [], err = None\<rparr>"

section \<open>Ranking, with the objects in a store\<close>

text \<open>
  Python passes lists and dictionaries by reference.  To say what ranking does to the
  objects it is given, they are kept in a store: the list of all objects, an address being
  a position in it.  A list object holds the addresses of its elements.  The values under
  the keys of a job (strings, numbers, the list of tags) are never written to by the
  ranking code and are kept as values.
\<close>

datatype obj = Dict_Obj job | List_Obj "nat list"

type_synonym heap = "obj list"

text \<open>Reading an object: \<open>None\<close> when the address holds no object of that kind.\<close>

definition get_dict :: "heap \<Rightarrow> nat \<Rightarrow> job option" where
  "get_dict h a = (if a < length h then (case h ! a of Dict_Obj j \<Rightarrow> Some j | List_Obj xs \<Rightarrow> None)
                   else None)"

definition get_list :: "heap \<Rightarrow> nat \<Rightarrow> nat list option" where
  "get_list h a = (if a < length h then (case h ! a of List_Obj xs \<Rightarrow> Some xs | Dict_Obj j \<Rightarrow> None)
                   else None)"

text \<open>A new object goes behind all others.\<close>

definition alloc :: "obj \<Rightarrow> heap \<Rightarrow> nat \<times> heap" where
  "alloc ob h = (length h, h @ [ob])"

text \<open>\<^verbatim>\<open>job.copy()\<close>, \<^verbatim>\<open>j[key] = value\<close> and \<^verbatim>\<open>scored.append(j)\<close>\<close>

definition dict_copy :: "nat \<Rightarrow> heap \<Rightarrow> (nat \<times> heap) option" where
  "dict_copy a h = (case get_dict h a of None \<Rightarrow> None | Some j \<Rightarrow> Some (alloc (Dict_Obj j) h))"

definition set_item :: "nat \<Rightarrow> (job \<Rightarrow> job) \<Rightarrow> heap \<Rightarrow> heap option" where
  "set_item a f h = (case get_dict h a of None \<Rightarrow> None | Some j \<Rightarrow> Some (h[a := Dict_Obj (f j)]))"

definition list_append :: "nat \<Rightarrow> nat \<Rightarrow> heap \<Rightarrow> heap option" where
  "list_append l a h =
     (case get_list h l of None \<Rightarrow> None | Some xs \<Rightarrow> Some (h[l := List_Obj (xs @ [a])]))"

text \<open>The jobs at a list of addresses, and the jobs of a list object.\<close>

fun dicts_at :: "heap \<Rightarrow> nat list \<Rightarrow> job list option" where
  "dicts_at h [] = Some []"
| "dicts_at h (a # as) =
     (case get_dict h a of
        None \<Rightarrow> None
      | Some j \<Rightarrow> (case dicts_at h as of None \<Rightarrow> None | Some js \<Rightarrow> Some (j # js)))"

definition jobs_at :: "heap \<Rightarrow> nat \<Rightarrow> job list option" where
  "jobs_at h l = (case get_list h l of None \<Rightarrow> None | Some as \<Rightarrow> dicts_at h as)"

text \<open>
  \<^verbatim>\<open>scored.sort(key=lambda x: x["match_score"], reverse=True)\<close>, in place.  The key of an
  address is the score of the job there.
\<close>

definition key_at :: "heap \<Rightarrow> nat \<Rightarrow> int" where
  "key_at h a = (case get_dict h a of None \<Rightarrow> 0 | Some j \<Rightarrow> match_score j)"

definition list_sort_desc :: "nat \<Rightarrow> heap \<Rightarrow> heap option" where
  "list_sort_desc l h =
     (case get_list h l of
        None \<Rightarrow> None
      | Some xs \<Rightarrow>
          (case dicts_at h xs of
             None \<Rightarrow> None
           | Some js \<Rightarrow> Some (h[l := List_Obj (sort_desc (key_at h) xs)])))"

text \<open>
  The body of the loop for a job without the key \<^verbatim>\<open>"error"\<close>: the copy, the two
  assignments to the copy, and the append.  The score and the matching skills are computed
  from the job as it is read.
\<close>

definition loop_body :: "resume_data \<Rightarrow> job \<Rightarrow> nat \<Rightarrow> nat \<Rightarrow> heap \<Rightarrow> heap option" where
  "loop_body rd job a scored h = do {
     (j, h1) \<leftarrow> dict_copy a h;
     h2 \<leftarrow> set_item j (\<lambda>d. d\<lparr>match_score := score rd job\<rparr>) h1;
     h3 \<leftarrow> set_item j (\<lambda>d. d\<lparr>matching_skills := matching (get_skills rd) job\<rparr>) h2;
     list_append scored j h3
   }"

text \<open>The loop over the addresses in the list \<^verbatim>\<open>jobs\<close>.\<close>

fun scored_loop_heap :: "resume_data \<Rightarrow> nat list \<Rightarrow> nat \<Rightarrow> heap \<Rightarrow> heap option" where
  "scored_loop_heap rd [] scored h = Some h"
| "scored_loop_heap rd (a # as) scored h =
     (case get_dict h a of
        None \<Rightarrow> None
      | Some job \<Rightarrow>
          if err job \<noteq> None then scored_loop_heap rd as scored h
          else (case loop_body rd job a scored h of
                  None \<Rightarrow> None
                | Some h' \<Rightarrow> scored_loop_heap rd as scored h'))"

text \<open>
  \<^verbatim>\<open>rank_jobs_by_resume\<close> on references: \<open>jobs\<close> is the address of the list, the result is
  the address of the list returned and the store after the call.
\<close>

definition rank_jobs_by_resume_heap :: "nat \<Rightarrow> resume_data \<Rightarrow> heap \<Rightarrow> (nat \<times> heap) option" where
  "rank_jobs_by_resume_heap jobs rd h =
     (case get_list h jobs of
        None \<Rightarrow> None
      | Some as \<Rightarrow>
          if as = [] \<or> resume_falsy rd \<or> has_error rd then Some (jobs, h)
          else do {
            (scored, h1) \<leftarrow> Some (alloc (List_Obj []) h);
            h2 \<leftarrow> scored_loop_heap rd as scored h1;
            h3 \<leftarrow> list_sort_desc scored h2;
            Some (scored, h3)
          })"


section \<open>Notions used in the statements\<close>

text \<open>
  The character before a position: \<open>p\<close> at the start of the text, else the last character
  of what has been passed.
\<close>

definition prev_char :: "char option \<Rightarrow> string \<Rightarrow> char option" where
  "prev_char p pre = (if pre = [] then p else Some (last pre))"

text \<open>The text begins with the literal \<open>w\<close>, character by character.\<close>

fun lit_prefix :: "bool \<Rightarrow> string \<Rightarrow> string \<Rightarrow> bool" where
  "lit_prefix ic [] s = True"
| "lit_prefix ic (l # ls) [] = False"
| "lit_prefix ic (l # ls) (c # cs) = (atom_ok ic (Lit l) c \<and> lit_prefix ic ls cs)"

text \<open>
  The text holds the word \<open>w\<close> as a token: an occurrence of \<open>w\<close>, in any mix of upper and
  lower case, with no word character right before it and none right after it.
\<close>

definition has_token :: "string \<Rightarrow> string \<Rightarrow> bool" where
  "has_token w s \<longleftrightarrow>
     (\<exists>pre m post. s = pre @ m @ post \<and> py_lower m = py_lower w \<and>
        (pre = [] \<or> \<not> is_word (last pre)) \<and> (post = [] \<or> \<not> is_word (hd post)))"

text \<open>The pattern of the skill \<^verbatim>\<open>react\<close>: \<^verbatim>\<open>\breact\.?js\b|\breact\b\<close>.\<close>

definition react_rx :: regex where
  "react_rx = Alt (seqs [WordB, lit ''react'', dot_opt, lit ''js'', WordB]) (wordp ''react'')"

text \<open>
  Education lines as the specification words them: a line that contains one of the
  keywords, case-insensitively, and has more than 5 characters that are not white space.
\<close>

definition spec_education_line :: "string \<Rightarrow> bool" where
  "spec_education_line line \<longleftrightarrow>
     (\<exists>k \<in> set EDUCATION_KEYWORDS. \<exists>pre post. py_lower line = pre @ k @ post) \<and>
     length (filter (\<lambda>c. \<not> is_space c) (py_strip line)) > 5"

definition claimed_education :: "string \<Rightarrow> string list" where
  "claimed_education s = take 5 (map py_strip (filter spec_education_line (split_lines s)))"

text \<open>
  The 4-digit years of a text, as the specification speaks of them: the strings of four
  decimal digits with a value from 1980 to 2029 that stand in the text with no word
  character right before them and none right after them.
\<close>

definition year_word :: "string \<Rightarrow> bool" where
  "year_word w \<longleftrightarrow> length w = 4 \<and> list_all is_digit w \<and> 1980 \<le> decimal w \<and> decimal w \<le> 2029"

definition year_tokens_from :: "char option \<Rightarrow> string \<Rightarrow> string set" where
  "year_tokens_from p s =
     {w. year_word w \<and>
         (\<exists>pre post. s = pre @ w @ post \<and> \<not> word_before (prev_char p pre) \<and> \<not> word_after post)}"

definition year_tokens :: "string \<Rightarrow> string set" where
  "year_tokens s = year_tokens_from None s"

text \<open>Such a year begins at the position.\<close>

definition year_here :: "char option \<Rightarrow> string \<Rightarrow> bool" where
  "year_here p s \<longleftrightarrow> \<not> word_before p \<and> year_word (take 4 s) \<and> \<not> word_after (drop 4 s)"

text \<open>The two alternatives of the year pattern, \<^verbatim>\<open>19[89]\d|20[012]\d\<close>.\<close>

definition year_alt :: regex where
  "year_alt = Alt (seqs [lit ''19'', Atom (OneOf ''89''), Atom Digit])
                  (seqs [lit ''20'', Atom (OneOf ''012''), Atom Digit])"

text \<open>
  Sets of texts: a text of the first set followed by one of the second, and a set of texts
  of which none need stand.
\<close>

definition cat :: "string set \<Rightarrow> string set \<Rightarrow> string set" where
  "cat A B = {u @ v |u v. u \<in> A \<and> v \<in> B}"

definition optional :: "string set \<Rightarrow> string set" where
  "optional A = insert [] A"

text \<open>White space of any length, and the numbers: one decimal digit or more.\<close>

definition blanks :: "string set" where
  "blanks = {w. list_all is_space w}"

definition numerals :: "string set" where
  "numerals = {ds. ds \<noteq> [] \<and> list_all is_digit ds}"

text \<open>
  The three phrasings of the specification, each as the set of the texts that word it with
  the number \<open>ds\<close>.  "N years" is the number, a plus sign or none, white space or none, and
  \<^verbatim>\<open>year\<close> or \<^verbatim>\<open>years\<close>.  "N years of experience" goes on with \<^verbatim>\<open>of\<close> and \<^verbatim>\<open>experience\<close>, with
  \<^verbatim>\<open>professional\<close> between them or not; "N years experience" goes on with \<^verbatim>\<open>experience\<close>;
  "experience: N years" is \<^verbatim>\<open>experience\<close>, a colon or a hyphen, and "N years".  White space
  may stand between the words, or none.
\<close>

definition n_years :: "string \<Rightarrow> string set" where
  "n_years ds = cat {ds} (cat (optional {''+''}) (cat blanks {''year'', ''years''}))"

definition phrasing_1 :: "string \<Rightarrow> string set" where
  "phrasing_1 ds =
     cat (n_years ds) (cat blanks (cat {''of''} (cat blanks
       (cat (optional (cat {''professional''} blanks)) {''experience''}))))"

definition phrasing_2 :: "string \<Rightarrow> string set" where
  "phrasing_2 ds = cat (n_years ds) (cat blanks {''experience''})"

definition phrasing_3 :: "string \<Rightarrow> string set" where
  "phrasing_3 ds = cat {''experience''} (cat blanks (cat {'':'', ''-''} (cat blanks (n_years ds))))"

text \<open>
  A phrasing stands in the text \<open>s\<close> at the position \<open>i\<close> with the number \<open>ds\<close>; it stands
  somewhere in the text; and \<open>ds\<close> is the number of its first occurrence from the left.
\<close>

definition occurs :: "(string \<Rightarrow> string set) \<Rightarrow> string \<Rightarrow> nat \<Rightarrow> string \<Rightarrow> bool" where
  "occurs ph s i ds \<longleftrightarrow>
     ds \<in> numerals \<and> (\<exists>pre w post. s = pre @ w @ post \<and> length pre = i \<and> w \<in> ph ds)"

definition found :: "(string \<Rightarrow> string set) \<Rightarrow> string \<Rightarrow> bool" where
  "found ph s \<longleftrightarrow> (\<exists>i ds. occurs ph s i ds)"

definition first_number :: "(string \<Rightarrow> string set) \<Rightarrow> string \<Rightarrow> string \<Rightarrow> bool" where
  "first_number ph s ds \<longleftrightarrow> (\<exists>i. occurs ph s i ds \<and> (\<forall>j ds'. occurs ph s j ds' \<longrightarrow> i \<le> j))"

text \<open>
  The reference algorithm of the specification for the years of experience.  The three
  phrasings are tried in their order on the text, in any mix of upper and lower case: the
  first that stands in it wins under its name, with the number of its first occurrence.
\<close>

definition first_phrasing :: "string \<Rightarrow> string \<Rightarrow> string \<Rightarrow> bool" where
  "first_phrasing s name ds \<longleftrightarrow>
     (name = ''explicit_phrase_1'' \<and> first_number phrasing_1 s ds) \<or>
     (name = ''explicit_phrase_2'' \<and> \<not> found phrasing_1 s \<and> first_number phrasing_2 s ds) \<or>
     (name = ''explicit_phrase_3'' \<and> \<not> found phrasing_1 s \<and> \<not> found phrasing_2 s \<and>
        first_number phrasing_3 s ds)"

text \<open>
  Else the distinct 4-digit years of the text count: their maximum minus their minimum when
  there are at least two of them, and 0 otherwise.
\<close>

definition year_span :: "string \<Rightarrow> int \<times> string" where
  "year_span s =
     (let ys = decimal ` year_tokens s
      in if card ys \<ge> 2 then (Max ys - Min ys, ''year_span_fallback'')
         else (0, ''not_detected''))"

text \<open>The number of years and the method that the reference algorithm gives for a text.\<close>

definition reference_result :: "string \<Rightarrow> int \<times> string \<Rightarrow> bool" where
  "reference_result s res \<longleftrightarrow>
     (\<exists>name ds. first_phrasing (py_lower s) name ds \<and> res = (decimal ds, name)) \<or>
     ((\<forall>name ds. \<not> first_phrasing (py_lower s) name ds) \<and> res = year_span s)"

text \<open>The number of years and the \<^verbatim>\<open>method\<close> entry of the trace of a result.\<close>

definition years_and_method :: "py_error + int \<times> exp_trace \<Rightarrow> py_error + int \<times> string" where
  "years_and_method res = map_sum id (\<lambda>(n, tr). (n, trace_method tr)) res"

text \<open>
  The texts that a pattern without groups, word boundaries and look-aheads matches: for such
  a pattern a match depends on nothing but the text it covers.
\<close>

fun plain :: "regex \<Rightarrow> bool" where
  "plain Eps = True"
| "plain (Atom a) = True"
| "plain (Seq r1 r2) = (plain r1 \<and> plain r2)"
| "plain (Alt r1 r2) = (plain r1 \<and> plain r2)"
| "plain (Opt r) = plain r"
| "plain (Star a) = True"
| "plain (Plus a) = True"
| "plain r = False"

fun lang :: "bool \<Rightarrow> regex \<Rightarrow> string set" where
  "lang ic Eps = {[]}"
| "lang ic (Atom a) = {[c] |c. atom_ok ic a c}"
| "lang ic (Seq r1 r2) = cat (lang ic r1) (lang ic r2)"
| "lang ic (Alt r1 r2) = lang ic r1 \<union> lang ic r2"
| "lang ic (Opt r) = optional (lang ic r)"
| "lang ic (Star a) = {w. \<forall>c \<in> set w. atom_ok ic a c}"
| "lang ic (Plus a) = {w. w \<noteq> [] \<and> (\<forall>c \<in> set w. atom_ok ic a c)}"
| "lang ic r = {}"

text \<open>The parts of the three phrase patterns before and after the group of the number.\<close>

definition years_tail :: regex where
  "years_tail = seqs [Opt (Atom (Lit CHR ''+'')), Star Space, lit ''year'', Opt (Atom (Lit CHR ''s''))]"

definition tail_1 :: regex where
  "tail_1 = seqs [years_tail, Star Space, lit ''of'', Star Space,
     Opt (Seq (lit ''professional'') (Star Space)), lit ''experience'']"

definition tail_2 :: regex where
  "tail_2 = seqs [years_tail, Star Space, lit ''experience'']"

definition head_3 :: regex where
  "head_3 = seqs [lit ''experience'', Star Space, Atom (OneOf '':-''), Star Space]"

text \<open>
  A pattern matches, at any position, exactly the texts of a phrasing, with the number in
  its group 1; and a phrasing whose number is fixed by the place where it begins.
\<close>

definition captures :: "regex \<Rightarrow> (string \<Rightarrow> string set) \<Rightarrow> bool" where
  "captures pat ph \<longleftrightarrow>
     (\<forall>p t. set (rm False pat (p, t, [])) =
        {(prev_char p w, s', [(1, ds)]) |w s' ds. t = w @ s' \<and> ds \<in> numerals \<and> w \<in> ph ds})"

definition determined :: "(string \<Rightarrow> string set) \<Rightarrow> bool" where
  "determined ph \<longleftrightarrow>
     (\<forall>w post w' post' ds ds'.
        w @ post = w' @ post' \<and> ds \<in> numerals \<and> ds' \<in> numerals \<and> w \<in> ph ds \<and> w' \<in> ph ds'
        \<longrightarrow> ds = ds')"


text \<open>
  The ends of the matches of a pattern at a position, without the groups: the character
  before the end and the text from the end on.
\<close>

definition proj :: "mstate \<Rightarrow> char option \<times> string" where
  "proj st = (fst st, fst (snd st))"

definition ends :: "bool \<Rightarrow> regex \<Rightarrow> char option \<Rightarrow> string \<Rightarrow> (char option \<times> string) set" where
  "ends ic r p s = proj ` set (rm ic r (p, s, []))"

text \<open>Patterns without a negative look-ahead.\<close>

fun positive :: "regex \<Rightarrow> bool" where
  "positive (NotAhead r) = False"
| "positive (Seq r1 r2) = (positive r1 \<and> positive r2)"
| "positive (Alt r1 r2) = (positive r1 \<and> positive r2)"
| "positive (Opt r) = positive r"
| "positive (Ahead r) = positive r"
| "positive (Group n r) = positive r"
| "positive r = True"

text \<open>
  A text can be continued by \<open>u\<close> without disturbing a word boundary at its end: the text
  does not end in a word character, or \<open>u\<close> does not begin with one.
\<close>

definition joins :: "char option \<Rightarrow> string \<Rightarrow> string \<Rightarrow> bool" where
  "joins p s u \<longleftrightarrow> \<not> (word_before (prev_char p s) \<and> word_after u)"

text \<open>The pattern of the skill \<^verbatim>\<open>java\<close>: \<^verbatim>\<open>\bjava\b(?!script)\<close>.\<close>

definition java_rx :: regex where
  "java_rx = seqs [WordB, lit ''java'', WordB, NotAhead (lit ''script'')]"

text \<open>The job with one more tag, at the end of its list of tags.\<close>

definition add_tag :: "string \<Rightarrow> job \<Rightarrow> job" where
  "add_tag t j = j\<lparr>tags := Some (get_tags j @ [t])\<rparr>"


section \<open>Example data\<close>

definition example_fields :: profile where
  "example_fields = \<lparr>raw_text = ''Python and React, 2015-2020'',
     skills = [''python'', ''react''], experience_years = 5, seniority = ''mid'',
     education = [], job_titles = [''software engineer''], contact_info = []\<rparr>"

definition example_profile :: resume_data where
  "example_profile = Resume example_fields"

definition example_job :: job where
  "example_job = normalize_job (Some ''Senior Software Engineer'') (Some ''Acme'') None
     (Some ''We build services in Python.'') None None None ''Remotive'' (Some [''react''])"

definition plain_job :: job where
  "plain_job = normalize_job (Some ''Gardener'') (Some ''Parks'') None
     (Some ''Outdoor work.'') None None None ''Adzuna'' None"

definition error_job :: job where
  "error_job = plain_job\<lparr>err := Some ''timeout''\<rparr>"

definition ml_profile :: resume_data where
  "ml_profile = Resume (example_fields\<lparr>skills := [''react'', ''machine learning'']\<rparr>)"

definition ml_job :: job where
  "ml_job = normalize_job (Some ''Developer'') (Some ''Acme'') None
     (Some ''React front end'') None None None ''Remotive'' (Some [''machine'', ''learning''])"

definition example_heap :: heap where
  "example_heap = [Dict_Obj plain_job, Dict_Obj error_job, Dict_Obj example_job, List_Obj [0, 1, 2]]"


section \<open>Verified properties\<close>

subsection \<open>Characters\<close>

lemma cp_char_of: "n < 256 \<Longrightarrow> cp (char_of n) = n"
  by (simp add: cp_def)

lemma cp_less: "cp c < 256"
  by (simp add: cp_def)

lemma cp_lower_char:
  "cp (lower_char c) =
     (if in_range 65 90 (cp c) \<or> in_range 192 214 (cp c) \<or> in_range 216 222 (cp c)
      then cp c + 32 else cp c)"
  using cp_less [of c] by (simp add: lower_char_def Let_def in_range_def cp_char_of)

lemma is_word_lower_char [simp]: "is_word (lower_char c) = is_word c"
  unfolding is_word_def Let_def cp_lower_char in_range_def by presburger

lemma is_word_letters [simp]:
  "is_word CHR ''s''" "is_word CHR ''j''" "is_word CHR ''a''" "is_word CHR ''t''"
  "is_word CHR ''p''" "is_word CHR ''n''" "is_word CHR ''r''"
  "\<not> is_word CHR '' ''" "\<not> is_word CHR ''.''"
  by code_simp+

lemma py_lower_eq_hd:
  "py_lower m = py_lower w \<Longrightarrow> w \<noteq> [] \<Longrightarrow> is_word (hd m) = is_word (hd w)"
  by (cases m; cases w) (auto simp: py_lower_def dest!: arg_cong [where f = is_word])

lemma py_lower_eq_last:
  "py_lower m = py_lower w \<Longrightarrow> w \<noteq> [] \<Longrightarrow> is_word (last m) = is_word (last w)"
proof -
  assume e: "py_lower m = py_lower w" and w: "w \<noteq> []"
  then have m: "m \<noteq> []" by (auto simp: py_lower_def)
  from e have "last (py_lower m) = last (py_lower w)" by simp
  then have "lower_char (last m) = lower_char (last w)"
    using m w by (simp add: py_lower_def last_map)
  then have "is_word (lower_char (last m)) = is_word (lower_char (last w))" by simp
  then show ?thesis by simp
qed

lemma py_lower_eq_Nil: "py_lower m = py_lower w \<Longrightarrow> (m = []) = (w = [])"
  by (auto simp: py_lower_def)

lemma starts_with_iff: "starts_with k s \<longleftrightarrow> (\<exists>post. s = k @ post)"
  by (induction k s rule: starts_with.induct) auto

lemma py_in_iff: "py_in k s \<longleftrightarrow> (\<exists>pre post. s = pre @ k @ post)"
proof (induction s)
  case Nil
  then show ?case by auto
next
  case (Cons c cs)
  have "(\<exists>pre post. c # cs = pre @ k @ post) \<longleftrightarrow>
        (\<exists>post. c # cs = k @ post) \<or> (\<exists>pre post. cs = pre @ k @ post)"
    (is "?L \<longleftrightarrow> ?A \<or> ?B")
  proof
    assume ?L
    then obtain pre post where e: "c # cs = pre @ k @ post" by blast
    show "?A \<or> ?B"
    proof (cases pre)
      case Nil
      then show ?thesis using e by auto
    next
      case (Cons d pre')
      then have "cs = pre' @ k @ post" using e by simp
      then show ?thesis by blast
    qed
  next
    assume "?A \<or> ?B"
    then show ?L
    proof
      assume ?A
      then obtain post where "c # cs = [] @ k @ post" by auto
      then show ?L by blast
    next
      assume ?B
      then obtain pre post where "cs = pre @ k @ post" by blast
      then have "c # cs = (c # pre) @ k @ post" by simp
      then show ?L by blast
    qed
  qed
  then show ?case using Cons by (simp add: starts_with_iff)
qed

subsection \<open>Searching\<close>

lemma prev_char_simps [simp]:
  "prev_char p [] = p"
  "prev_char p (c # pre) = prev_char (Some c) pre"
  "prev_char p (pre @ [c]) = Some c"
  by (simp_all add: prev_char_def)

lemma prev_char_append: "prev_char p (xs @ ys) = prev_char (prev_char p xs) ys"
  by (simp add: prev_char_def)

lemma match_at_None_iff: "match_at ic r p s = None \<longleftrightarrow> rm ic r (p, s, []) = []"
  by (simp add: match_at_def split: list.splits)

lemma all_split_Cons:
  "(\<forall>pre suf. c # cs = pre @ suf \<longrightarrow> P pre suf) \<longleftrightarrow>
   P [] (c # cs) \<and> (\<forall>pre suf. cs = pre @ suf \<longrightarrow> P (c # pre) suf)"
  by (auto simp: Cons_eq_append_conv)

lemma search_from_None_iff:
  "search_from ic r p s = None \<longleftrightarrow>
   (\<forall>pre suf. s = pre @ suf \<longrightarrow> rm ic r (prev_char p pre, suf, []) = [])"
proof (induction s arbitrary: p)
  case Nil
  then show ?case
    by (simp add: match_at_None_iff)
next
  case (Cons c cs)
  have "search_from ic r p (c # cs) = None \<longleftrightarrow>
        match_at ic r p (c # cs) = None \<and> search_from ic r (Some c) cs = None"
    by (simp split: option.splits)
  also have "\<dots> \<longleftrightarrow> rm ic r (p, c # cs, []) = [] \<and>
      (\<forall>pre suf. cs = pre @ suf \<longrightarrow> rm ic r (prev_char (Some c) pre, suf, []) = [])"
    by (simp only: match_at_None_iff Cons.IH)
  also have "\<dots> \<longleftrightarrow>
      (\<forall>pre suf. c # cs = pre @ suf \<longrightarrow> rm ic r (prev_char p pre, suf, []) = [])"
    by (subst all_split_Cons) (simp only: prev_char_simps)
  finally show ?case .
qed

lemma re_search_None_iff:
  "re_search ic r s = None \<longleftrightarrow>
   (\<forall>pre suf. s = pre @ suf \<longrightarrow> rm ic r (prev_char None pre, suf, []) = [])"
  by (simp only: re_search_def search_from_None_iff)

lemma re_search_Some_iff:
  "re_search ic r s \<noteq> None \<longleftrightarrow>
   (\<exists>pre suf. s = pre @ suf \<and> rm ic r (prev_char None pre, suf, []) \<noteq> [])"
  by (simp only: re_search_None_iff not_all not_imp)

lemma re_search_Alt:
  "re_search ic (Alt a b) s \<noteq> None \<longleftrightarrow> re_search ic a s \<noteq> None \<or> re_search ic b s \<noteq> None"
  unfolding re_search_Some_iff by (simp only: rm.simps append_is_Nil_conv de_Morgan_conj ex_disj_distrib conj_disj_distribL)

subsection \<open>Literals and word patterns\<close>

lemma lit_Nil [simp]: "lit [] = Eps"
  by (simp add: lit_def)

lemma lit_Cons: "lit (l # ls) = (if ls = [] then Atom (Lit l) else Seq (Atom (Lit l)) (lit ls))"
  by (cases ls) (simp_all add: lit_def)

lemma rm_lit:
  "rm ic (lit w) (p, s, caps) =
     (if lit_prefix ic w s then [(prev_char p (take (length w) s), drop (length w) s, caps)]
      else [])"
proof (induction w arbitrary: p s)
  case Nil
  then show ?case by simp
next
  case (Cons l ls)
  show ?case
  proof (cases s)
    case Nil
    then show ?thesis by (simp add: lit_Cons del: atom_ok.simps)
  next
    case (Cons c cs)
    then show ?thesis using Cons.IH [of "Some c" cs]
      by (cases "ls = []") (simp_all add: lit_Cons del: atom_ok.simps)
  qed
qed

lemma lit_prefix_True_iff:
  "lit_prefix True w s \<longleftrightarrow> length w \<le> length s \<and> py_lower (take (length w) s) = py_lower w"
proof (induction w arbitrary: s)
  case Nil
  then show ?case by (simp add: py_lower_def)
next
  case (Cons l ls)
  then show ?case by (cases s) (auto simp: py_lower_def)
qed

lemma lit_prefix_word_after:
  "lit_prefix True (l # ls) s \<Longrightarrow> word_after s = is_word l"
  by (cases s) (auto simp: word_after_def dest: arg_cong [where f = is_word])

lemma rm_Seq_WordB:
  "rm ic (Seq WordB r) (p, s, caps) =
     (if word_before p \<noteq> word_after s then rm ic r (p, s, caps) else [])"
  by simp

lemma rm_Seq_lit:
  "rm ic (Seq (lit w) r) (p, s, caps) =
     (if lit_prefix ic w s then rm ic r (prev_char p (take (length w) s), drop (length w) s, caps)
      else [])"
  by (simp add: rm_lit)

lemma rm_wordp:
  "rm ic (wordp w) (p, s, caps) =
     (if word_before p \<noteq> word_after s \<and> lit_prefix ic w s \<and>
         word_before (prev_char p (take (length w) s)) \<noteq> word_after (drop (length w) s)
      then [(prev_char p (take (length w) s), drop (length w) s, caps)] else [])"
  by (simp add: wordp_def rm_Seq_WordB rm_Seq_lit del: rm.simps(3))

lemma word_after_append: "m \<noteq> [] \<Longrightarrow> word_after (m @ post) = is_word (hd m)"
  by (cases m) (simp_all add: word_after_def)

lemma word_after_alt: "word_after s \<longleftrightarrow> s \<noteq> [] \<and> is_word (hd s)"
  by (cases s) (simp_all add: word_after_def)

lemma word_before_prev_char:
  "word_before (prev_char None pre) \<longleftrightarrow> pre \<noteq> [] \<and> is_word (last pre)"
  by (simp add: prev_char_def word_before_def)

lemma word_before_prev_char_Some:
  "m \<noteq> [] \<Longrightarrow> word_before (prev_char p m) = is_word (last m)"
  by (simp add: prev_char_def word_before_def)

lemma word_before_after_lit:
  assumes "lit_prefix True w s" "w \<noteq> []"
  shows "word_before (prev_char p (take (length w) s)) = is_word (last w)"
proof -
  from assms(1) have low: "py_lower (take (length w) s) = py_lower w" and len: "length w \<le> length s"
    by (simp_all add: lit_prefix_True_iff)
  then have ne: "take (length w) s \<noteq> []" using assms(2) by auto
  show ?thesis
    using word_before_prev_char_Some [OF ne, of p] py_lower_eq_last [OF low assms(2)] by simp
qed

lemma has_tokenI:
  "s = pre @ m @ post \<Longrightarrow> py_lower m = py_lower w \<Longrightarrow> pre = [] \<or> \<not> is_word (last pre) \<Longrightarrow>
   post = [] \<or> \<not> is_word (hd post) \<Longrightarrow> has_token w s"
  unfolding has_token_def by blast

lemma has_token_embed:
  assumes "has_token w d" "a = [] \<or> \<not> is_word (last a)" "b = [] \<or> \<not> is_word (hd b)"
  shows "has_token w (a @ d @ b)"
proof -
  from assms(1) obtain pre m post where s: "d = pre @ m @ post" and low: "py_lower m = py_lower w"
    and p: "pre = [] \<or> \<not> is_word (last pre)" and q: "post = [] \<or> \<not> is_word (hd post)"
    unfolding has_token_def by blast
  have p': "a @ pre = [] \<or> \<not> is_word (last (a @ pre))" using p assms(2) by (auto simp: last_append)
  have q': "post @ b = [] \<or> \<not> is_word (hd (post @ b))" using q assms(3) by (cases post) auto
  show ?thesis
    by (rule has_tokenI [OF _ low p' q']) (simp add: s)
qed

lemma has_token_lower: "py_lower w = py_lower v \<Longrightarrow> has_token w s = has_token v s"
  by (simp add: has_token_def)

text \<open>A word pattern is found exactly in the texts that hold the word as a token.\<close>

lemma wordp_search_iff:
  assumes w: "w \<noteq> []" "is_word (hd w)" "is_word (last w)"
  shows "re_search True (wordp w) s \<noteq> None \<longleftrightarrow> has_token w s"
proof
  assume "re_search True (wordp w) s \<noteq> None"
  then obtain pre suf where s: "s = pre @ suf"
    and r: "rm True (wordp w) (prev_char None pre, suf, []) \<noteq> []"
    unfolding re_search_Some_iff by blast
  let ?n = "length w"
  from r have b1: "word_before (prev_char None pre) \<noteq> word_after suf"
    and lp: "lit_prefix True w suf"
    and b2: "word_before (prev_char (prev_char None pre) (take ?n suf)) \<noteq> word_after (drop ?n suf)"
    by (simp_all add: rm_wordp split: if_splits)
  from lp have len: "?n \<le> length suf" and low: "py_lower (take ?n suf) = py_lower w"
    by (simp_all add: lit_prefix_True_iff)
  let ?m = "take ?n suf" and ?post = "drop ?n suf"
  have m: "?m \<noteq> []" using w len by auto
  have suf: "suf = ?m @ ?post" by simp
  have "word_after suf = is_word (hd ?m)"
    using word_after_append [OF m, of ?post] by simp
  then have "word_after suf" using py_lower_eq_hd [OF low w(1)] w(2) by simp
  with b1 have p: "pre = [] \<or> \<not> is_word (last pre)"
    by (auto simp: word_before_prev_char)
  have "word_before (prev_char (prev_char None pre) ?m)"
    using word_before_prev_char_Some [OF m] py_lower_eq_last [OF low w(1)] w(3) by simp
  with b2 have q: "?post = [] \<or> \<not> is_word (hd ?post)"
    by (auto simp: word_after_alt)
  show "has_token w s"
    by (rule has_tokenI [OF _ low p q]) (simp add: s)
next
  assume "has_token w s"
  then obtain pre m post where s: "s = pre @ m @ post" and low: "py_lower m = py_lower w"
    and p: "pre = [] \<or> \<not> is_word (last pre)" and q: "post = [] \<or> \<not> is_word (hd post)"
    unfolding has_token_def by blast
  have m: "m \<noteq> []" using low w(1) py_lower_eq_Nil by blast
  have len: "length m = length w" using low by (auto simp: py_lower_def dest: map_eq_imp_length_eq)
  have a: "word_after (m @ post)"
    using word_after_append [OF m, of post] py_lower_eq_hd [OF low w(1)] w(2) by simp
  have b: "\<not> word_before (prev_char None pre)" using p by (auto simp: word_before_prev_char)
  have c: "word_before (prev_char (prev_char None pre) m)"
    using word_before_prev_char_Some [OF m] py_lower_eq_last [OF low w(1)] w(3) by simp
  have d: "\<not> word_after post" using q by (auto simp: word_after_alt)
  have lp: "lit_prefix True w (m @ post)" by (simp add: lit_prefix_True_iff len low)
  have "rm True (wordp w) (prev_char None pre, m @ post, []) \<noteq> []"
    using a b c d lp by (simp add: rm_wordp len)
  then show "re_search True (wordp w) s \<noteq> None"
    unfolding re_search_Some_iff s by blast
qed

text \<open>The look-ahead of the \<^verbatim>\<open>java\<close> rule never decides: behind a word boundary no
  \<^verbatim>\<open>script\<close> can follow.\<close>

lemma rm_word_not_ahead:
  assumes w: "w \<noteq> []" "is_word (last w)" and l: "is_word l"
  shows "rm True (seqs [WordB, lit w, WordB, NotAhead (lit (l # ls))]) (p, s, caps) =
         rm True (wordp w) (p, s, caps)"
proof -
  have la: "rm True (NotAhead (lit (l # ls))) (q, t, caps) = [(q, t, caps)]"
    if "\<not> word_after t" for q t
  proof -
    have "\<not> lit_prefix True (l # ls) t"
      using that l lit_prefix_word_after [of l ls t] by auto
    then show ?thesis by (simp add: rm_lit)
  qed
  show ?thesis
    using word_before_after_lit [OF _ w(1), of s p] w(2)
      la [of "drop (length w) s" "prev_char p (take (length w) s)"]
    by (simp add: wordp_def rm_Seq_WordB rm_Seq_lit del: rm.simps(3))
qed

lemma re_search_java:
  "re_search True (seqs [WordB, lit ''java'', WordB, NotAhead (lit ''script'')]) s \<noteq> None
   \<longleftrightarrow> has_token ''java'' s"
proof -
  have e: "rm True (seqs [WordB, lit ''java'', WordB, NotAhead (lit ''script'')]) st =
           rm True (wordp ''java'') st" for st
  proof (cases st)
    case (fields a b c)
    have "rm True (seqs [WordB, lit ''java'', WordB, NotAhead (lit ''script'')]) (a, b, c) =
          rm True (wordp ''java'') (a, b, c)"
      by (rule rm_word_not_ahead) simp_all
    then show ?thesis by (simp only: fields)
  qed
  have h: "re_search True (wordp ''java'') s \<noteq> None \<longleftrightarrow> has_token ''java'' s"
    by (rule wordp_search_iff) simp_all
  show ?thesis
    unfolding re_search_Some_iff e unfolding re_search_Some_iff [symmetric] h ..
qed

subsection \<open>Groups\<close>

lemma star_run_caps:
  "(p', s', caps') \<in> set (star_run ic a p s caps) \<Longrightarrow> caps' = caps"
  by (induction s arbitrary: p) (auto split: if_splits)

subsection \<open>Continuing the text\<close>

lemma proj_simp [simp]: "proj (p, s, c) = (p, s)"
  by (simp add: proj_def)

lemma star_run_proj_caps:
  "map proj (star_run ic a p s caps) = map proj (star_run ic a p s caps')"
  by (induction s arbitrary: p) auto

lemma concat_proj_cong:
  assumes "map proj xs = map proj ys"
    and "\<And>p s c c'. map proj (f (p, s, c)) = map proj (f (p, s, c'))"
  shows "map proj (concat (map f xs)) = map proj (concat (map f ys))"
  using assms(1)
proof (induction xs arbitrary: ys)
  case Nil
  then show ?case by simp
next
  case (Cons x xs)
  then obtain y ys' where ys: "ys = y # ys'" by (cases ys) auto
  with Cons.prems have xy: "proj x = proj y" and rest: "map proj xs = map proj ys'" by auto
  obtain p s c where x: "x = (p, s, c)" by (cases x) auto
  obtain p' s' c' where y: "y = (p', s', c')" by (cases y) auto
  from xy x y have "p' = p" "s' = s" by auto
  then have "map proj (f x) = map proj (f y)" using assms(2) [of p s c c'] x y by simp
  then show ?case using Cons.IH [OF rest] ys by simp
qed

lemma rm_proj_caps:
  "map proj (rm ic r (p, s, caps)) = map proj (rm ic r (p, s, caps'))"
proof (induction r arbitrary: p s caps caps')
  case Eps
  then show ?case by simp
next
  case (Atom a)
  then show ?case by (simp split: list.splits)
next
  case (Seq r1 r2)
  show ?case
    unfolding rm.simps
    by (rule concat_proj_cong [OF Seq.IH(1)]) (rule Seq.IH(2))
next
  case (Alt r1 r2)
  show ?case using Alt.IH(1) [of p s caps caps'] Alt.IH(2) [of p s caps caps'] by simp
next
  case (Opt r)
  show ?case using Opt.IH [of p s caps caps'] by simp
next
  case (Star a)
  then show ?case by (simp add: star_run_proj_caps)
next
  case (Plus a)
  then show ?case by (simp add: star_run_proj_caps split: list.splits)
next
  case WordB
  then show ?case by simp
next
  case (Ahead r)
  have "(rm ic r (p, s, caps) = []) = (rm ic r (p, s, caps') = [])"
    using Ahead [of p s caps caps'] by (metis map_is_Nil_conv)
  then show ?case by (auto split: list.splits)
next
  case (NotAhead r)
  have "(rm ic r (p, s, caps) = []) = (rm ic r (p, s, caps') = [])"
    using NotAhead [of p s caps caps'] by (metis map_is_Nil_conv)
  then show ?case by (auto split: list.splits)
next
  case (Group n r)
  have "proj \<circ> (\<lambda>(p', s', caps'). (p', s', (n, take (length s - length s') s) # caps')) = proj"
    by (auto simp: fun_eq_iff)
  then show ?case using Group [of p s caps caps'] by simp
qed

lemma ends_caps: "proj ` set (rm ic r (p, s, caps)) = ends ic r p s"
  unfolding ends_def using rm_proj_caps [of ic r p s caps "[]"]
  by (metis set_map)

lemma ends_Eps [simp]: "ends ic Eps p s = {(p, s)}"
  by (simp add: ends_def)

lemma ends_Atom:
  "ends ic (Atom a) p s = (case s of [] \<Rightarrow> {} | c # cs \<Rightarrow> if atom_ok ic a c then {(Some c, cs)} else {})"
  by (simp add: ends_def split: list.splits)

lemma ends_Seq: "ends ic (Seq r1 r2) p s = (\<Union>(p1, s1) \<in> ends ic r1 p s. ends ic r2 p1 s1)"
proof -
  have "ends ic (Seq r1 r2) p s = (\<Union>st \<in> set (rm ic r1 (p, s, [])). proj ` set (rm ic r2 st))"
    by (auto simp: ends_def)
  also have "\<dots> = (\<Union>st \<in> set (rm ic r1 (p, s, [])). ends ic r2 (fst (proj st)) (snd (proj st)))"
    by (rule SUP_cong [OF refl]) (simp add: ends_caps split_paired_all)
  also have "\<dots> = (\<Union>(p1, s1) \<in> ends ic r1 p s. ends ic r2 p1 s1)"
    by (auto simp: ends_def case_prod_beta)
  finally show ?thesis .
qed

lemma ends_Alt [simp]: "ends ic (Alt r1 r2) p s = ends ic r1 p s \<union> ends ic r2 p s"
  by (simp add: ends_def image_Un)

lemma ends_Opt [simp]: "ends ic (Opt r) p s = insert (p, s) (ends ic r p s)"
  by (simp add: ends_def)

lemma ends_WordB:
  "ends ic WordB p s = (if word_before p \<noteq> word_after s then {(p, s)} else {})"
  by (simp add: ends_def)

lemma ends_Ahead: "ends ic (Ahead r) p s = (if ends ic r p s = {} then {} else {(p, s)})"
proof (cases "rm ic r (p, s, [])")
  case Nil
  then show ?thesis by (simp add: ends_def)
next
  case (Cons st sts)
  then show ?thesis by (cases st) (simp add: ends_def)
qed

lemma ends_NotAhead: "ends ic (NotAhead r) p s = (if ends ic r p s = {} then {(p, s)} else {})"
proof (cases "rm ic r (p, s, [])")
  case Nil
  then show ?thesis by (simp add: ends_def)
next
  case (Cons st sts)
  then show ?thesis by (simp add: ends_def)
qed

lemma ends_Group [simp]: "ends ic (Group n r) p s = ends ic r p s"
proof -
  have "proj ` set (map (\<lambda>(p', s', caps'). (p', s', (n, take (length s - length s') s) # caps')) xs)
        = proj ` set xs" for xs :: "mstate list"
    by (induction xs) auto
  then show ?thesis by (simp add: ends_def)
qed

lemma star_run_ends:
  "proj ` set (star_run ic a p s caps) =
   {(prev_char p w, s') | w s'. s = w @ s' \<and> (\<forall>c \<in> set w. atom_ok ic a c)}"
proof (induction s arbitrary: p)
  case Nil
  then show ?case by auto
next
  case (Cons c cs)
  show ?case (is "?L = ?R")
  proof (intro set_eqI iffI)
    fix x assume "x \<in> ?L"
    then consider "atom_ok ic a c" "x \<in> proj ` set (star_run ic a (Some c) cs caps)"
      | "x = (p, c # cs)"
      by (auto split: if_splits)
    then show "x \<in> ?R"
    proof cases
      case 1
      then obtain w s' where "x = (prev_char (Some c) w, s')" "cs = w @ s'"
        "\<forall>d \<in> set w. atom_ok ic a d"
        unfolding Cons.IH by blast
      then have "x = (prev_char p (c # w), s') \<and> c # cs = (c # w) @ s' \<and>
          (\<forall>d \<in> set (c # w). atom_ok ic a d)" using 1(1) by simp
      then show ?thesis by blast
    next
      case 2
      then have "x = (prev_char p [], c # cs) \<and> c # cs = [] @ c # cs \<and>
          (\<forall>d \<in> set []. atom_ok ic a d)" by simp
      then show ?thesis by blast
    qed
  next
    fix x assume "x \<in> ?R"
    then obtain w s' where x: "x = (prev_char p w, s')" and e: "c # cs = w @ s'"
      and ok: "\<forall>d \<in> set w. atom_ok ic a d" by blast
    show "x \<in> ?L"
    proof (cases w)
      case Nil
      with e have "s' = c # cs" by simp
      then show ?thesis using x Nil by simp
    next
      case (Cons d w')
      then have "d = c" "cs = w' @ s'" "atom_ok ic a c" "\<forall>d \<in> set w'. atom_ok ic a d"
        using e ok by auto
      then have "(prev_char (Some c) w', s') \<in> proj ` set (star_run ic a (Some c) cs caps)"
        unfolding Cons.IH by blast
      then show ?thesis using x Cons \<open>d = c\<close> \<open>atom_ok ic a c\<close> by simp
    qed
  qed
qed

lemma ends_Star:
  "ends ic (Star a) p s =
   {(prev_char p w, s') | w s'. s = w @ s' \<and> (\<forall>c \<in> set w. atom_ok ic a c)}"
  by (simp add: ends_def star_run_ends)

lemma ends_Plus:
  "ends ic (Plus a) p s =
   {(prev_char p w, s') | w s'. s = w @ s' \<and> w \<noteq> [] \<and> (\<forall>c \<in> set w. atom_ok ic a c)}"
proof (cases s)
  case Nil
  then show ?thesis by (auto simp: ends_def)
next
  case (Cons c cs)
  show ?thesis (is "?L = ?R")
  proof (intro set_eqI iffI)
    fix x assume "x \<in> ?L"
    then have ok: "atom_ok ic a c" and "x \<in> proj ` set (star_run ic a (Some c) cs [])"
      using Cons by (auto simp: ends_def split: if_splits)
    then obtain w s' where "x = (prev_char (Some c) w, s')" "cs = w @ s'"
        "\<forall>d \<in> set w. atom_ok ic a d"
      unfolding star_run_ends by blast
    then have "x = (prev_char p (c # w), s') \<and> s = (c # w) @ s' \<and> c # w \<noteq> [] \<and>
          (\<forall>d \<in> set (c # w). atom_ok ic a d)" using ok Cons by simp
    then show "x \<in> ?R" by blast
  next
    fix x assume "x \<in> ?R"
    then obtain w s' where x: "x = (prev_char p w, s')" and e: "s = w @ s'" and ne: "w \<noteq> []"
      and ok: "\<forall>d \<in> set w. atom_ok ic a d" by blast
    from ne obtain d w' where w: "w = d # w'" by (cases w) auto
    then have "d = c" "cs = w' @ s'" "atom_ok ic a c" "\<forall>d \<in> set w'. atom_ok ic a d"
      using e ok Cons by auto
    then have "(prev_char (Some c) w', s') \<in> proj ` set (star_run ic a (Some c) cs [])"
      unfolding star_run_ends by blast
    then show "x \<in> ?L" using x w \<open>d = c\<close> \<open>atom_ok ic a c\<close> Cons by (simp add: ends_def)
  qed
qed

lemma ends_path:
  "(p', s') \<in> ends ic r p s \<Longrightarrow> \<exists>w. s = w @ s' \<and> p' = prev_char p w"
proof (induction r arbitrary: p s p' s')
  case Eps
  then show ?case by simp
next
  case (Atom a)
  then show ?case
    by (cases s) (auto simp: ends_Atom split: if_splits intro: exI [of _ "[hd s]"])
next
  case (Seq r1 r2)
  from Seq.prems obtain p1 s1 where a: "(p1, s1) \<in> ends ic r1 p s" and b: "(p', s') \<in> ends ic r2 p1 s1"
    by (auto simp: ends_Seq)
  from Seq.IH(1) [OF a] obtain w1 where w1: "s = w1 @ s1" "p1 = prev_char p w1" by blast
  from Seq.IH(2) [OF b] obtain w2 where w2: "s1 = w2 @ s'" "p' = prev_char p1 w2" by blast
  have "s = (w1 @ w2) @ s' \<and> p' = prev_char p (w1 @ w2)"
    using w1 w2 by (simp add: prev_char_append)
  then show ?case by blast
next
  case (Alt r1 r2)
  then show ?case by auto
next
  case (Opt r)
  then show ?case by (auto intro: exI [of _ "[]"])
next
  case (Star a)
  then show ?case by (auto simp: ends_Star)
next
  case (Plus a)
  then show ?case by (auto simp: ends_Plus)
next
  case WordB
  then show ?case by (auto simp: ends_WordB split: if_splits intro: exI [of _ "[]"])
next
  case (Ahead r)
  then show ?case by (auto simp: ends_Ahead split: if_splits intro: exI [of _ "[]"])
next
  case (NotAhead r)
  then show ?case by (auto simp: ends_NotAhead split: if_splits intro: exI [of _ "[]"])
next
  case (Group n r)
  then show ?case by simp
qed

lemma word_after_append_left: "s \<noteq> [] \<Longrightarrow> word_after (s @ u) = word_after s"
  by (cases s) (simp_all add: word_after_def)

lemma ends_extend:
  "positive r \<Longrightarrow> (p', s') \<in> ends ic r p s \<Longrightarrow> joins p s u \<Longrightarrow>
   (p', s' @ u) \<in> ends ic r p (s @ u)"
proof (induction r arbitrary: p s p' s')
  case Eps
  then show ?case by simp
next
  case (Atom a)
  then show ?case by (cases s) (auto simp: ends_Atom split: if_splits)
next
  case (Seq r1 r2)
  from Seq.prems obtain p1 s1 where a: "(p1, s1) \<in> ends ic r1 p s" and b: "(p', s') \<in> ends ic r2 p1 s1"
    by (auto simp: ends_Seq)
  from ends_path [OF a] obtain w1 where w1: "s = w1 @ s1" "p1 = prev_char p w1" by blast
  then have j: "joins p1 s1 u" using Seq.prems(3) by (simp add: joins_def prev_char_append)
  have "(p1, s1 @ u) \<in> ends ic r1 p (s @ u)"
    using Seq.IH(1) [OF _ a Seq.prems(3)] Seq.prems(1) by simp
  moreover have "(p', s' @ u) \<in> ends ic r2 p1 (s1 @ u)"
    using Seq.IH(2) [OF _ b j] Seq.prems(1) by simp
  ultimately show ?case by (auto simp: ends_Seq)
next
  case (Alt r1 r2)
  then show ?case by auto
next
  case (Opt r)
  then show ?case by auto
next
  case (Star a)
  then obtain w where "s = w @ s'" "p' = prev_char p w" "\<forall>c \<in> set w. atom_ok ic a c"
    by (auto simp: ends_Star)
  then have "p' = prev_char p w \<and> s @ u = w @ (s' @ u) \<and> (\<forall>c \<in> set w. atom_ok ic a c)" by simp
  then show ?case unfolding ends_Star by blast
next
  case (Plus a)
  then obtain w where "s = w @ s'" "p' = prev_char p w" "w \<noteq> []" "\<forall>c \<in> set w. atom_ok ic a c"
    by (auto simp: ends_Plus)
  then have "p' = prev_char p w \<and> s @ u = w @ (s' @ u) \<and> w \<noteq> [] \<and> (\<forall>c \<in> set w. atom_ok ic a c)"
    by simp
  then show ?case unfolding ends_Plus by blast
next
  case WordB
  then have e: "p' = p" "s' = s" and b: "word_before p \<noteq> word_after s"
    by (auto simp: ends_WordB split: if_splits)
  have "word_before p \<noteq> word_after (s @ u)"
  proof (cases "s = []")
    case True
    then show ?thesis using b WordB.prems(3) by (auto simp: joins_def word_after_def)
  next
    case False
    then show ?thesis using b by (simp add: word_after_append_left)
  qed
  then show ?case using e by (simp add: ends_WordB)
next
  case (Ahead r)
  then have e: "p' = p" "s' = s" and ne: "ends ic r p s \<noteq> {}"
    by (auto simp: ends_Ahead split: if_splits)
  from ne obtain p1 s1 where "(p1, s1) \<in> ends ic r p s" by auto
  from Ahead.IH [OF _ this Ahead.prems(3)] Ahead.prems(1)
  have "ends ic r p (s @ u) \<noteq> {}" by auto
  then show ?case using e by (simp add: ends_Ahead)
next
  case (NotAhead r)
  then show ?case by simp
next
  case (Group n r)
  then show ?case by simp
qed

lemma re_search_ends_iff:
  "re_search ic r s \<noteq> None \<longleftrightarrow> (\<exists>pre suf. s = pre @ suf \<and> ends ic r (prev_char None pre) suf \<noteq> {})"
  unfolding re_search_Some_iff ends_def by simp

lemma re_search_extend:
  assumes "positive r" "re_search ic r s \<noteq> None" "joins None s u"
  shows "re_search ic r (s @ u) \<noteq> None"
proof -
  from assms(2) obtain pre suf p' s' where s: "s = pre @ suf"
    and m: "(p', s') \<in> ends ic r (prev_char None pre) suf"
    unfolding re_search_ends_iff by auto
  have "joins (prev_char None pre) suf u"
    using assms(3) s by (simp add: joins_def prev_char_append)
  from ends_extend [OF assms(1) m this]
  have "s @ u = pre @ (suf @ u) \<and> ends ic r (prev_char None pre) (suf @ u) \<noteq> {}"
    using s by auto
  then show ?thesis unfolding re_search_ends_iff by blast
qed

subsection \<open>Extracted skills\<close>

lemma skill_match_loop_names:
  "c \<in> set (map fst (skill_match_loop xs s)) \<longleftrightarrow>
   (\<exists>p. (c, p) \<in> set xs \<and> re_search True p s \<noteq> None)"
  by (induction xs s rule: skill_match_loop.induct) (auto split: option.splits)

lemma distinct_SKILLS: "distinct (map fst SKILLS)"
  by code_simp

lemma extracted_skills_iff:
  assumes "map_of SKILLS c = Some p"
  shows "c \<in> set (extracted_skills s) \<longleftrightarrow> re_search True p s \<noteq> None"
proof -
  have "\<And>q. (c, q) \<in> set SKILLS \<longleftrightarrow> q = p"
    using assms distinct_SKILLS by (metis map_of_eq_Some_iff option.inject)
  then show ?thesis
    unfolding extracted_skills_def skill_match_def skill_match_loop_names by simp
qed

lemma map_of_python: "map_of SKILLS ''python'' = Some (wordp ''python'')"
  by (simp add: SKILLS_def)

lemma map_of_java:
  "map_of SKILLS ''java'' = Some (seqs [WordB, lit ''java'', WordB, NotAhead (lit ''script'')])"
  by (simp add: SKILLS_def)

lemma map_of_javascript:
  "map_of SKILLS ''javascript'' = Some (Alt (wordp ''javascript'') (wordp ''js''))"
  by (simp add: SKILLS_def)

lemma map_of_cpp: "map_of SKILLS ''c++'' = Some (Alt (wordp ''c++'') (wordp ''cpp''))"
  by (simp add: SKILLS_def)

lemma map_of_swift: "map_of SKILLS ''swift'' = Some (wordp ''swift'')"
  by (simp add: SKILLS_def)

lemma map_of_ios: "map_of SKILLS ''ios'' = Some (alts [wordp ''ios'', wordp ''swift'', wordp ''xcode''])"
  by (simp add: SKILLS_def)

text \<open>
  C10.  In every text from which the skill \<^verbatim>\<open>swift\<close> is extracted, the skill \<^verbatim>\<open>ios\<close> is
  extracted too: the pattern of \<^verbatim>\<open>ios\<close> has \<^verbatim>\<open>\bswift\b\<close> as an alternative.  The text
  \<^verbatim>\<open>Swift developer\<close> does not mention iOS, and \<^verbatim>\<open>ios\<close> is extracted from it.
\<close>

theorem swift_implies_ios:
  "(\<forall>s. ''swift'' \<in> set (extracted_skills s) \<longrightarrow> ''ios'' \<in> set (extracted_skills s)) \<and>
   ''ios'' \<in> set (extracted_skills ''Swift developer'')"
proof -
  have a: "''ios'' \<in> set (extracted_skills s)" if "''swift'' \<in> set (extracted_skills s)" for s
    using that
    unfolding extracted_skills_iff [OF map_of_swift] extracted_skills_iff [OF map_of_ios]
      alts.simps re_search_Alt by simp
  have "re_search True (wordp ''swift'') ''Swift developer'' \<noteq> None"
    by code_simp
  then have "''swift'' \<in> set (extracted_skills ''Swift developer'')"
    unfolding extracted_skills_iff [OF map_of_swift] .
  with a show ?thesis by blast
qed

theorem swift_implies_ios_witness:
  "''swift'' \<in> set (extracted_skills ''Swift developer'') \<and>
   ''ios'' \<in> set (extracted_skills ''Swift developer'')"
proof -
  have "re_search True (wordp ''swift'') ''Swift developer'' \<noteq> None"
    by code_simp
  then have "''swift'' \<in> set (extracted_skills ''Swift developer'')"
    unfolding extracted_skills_iff [OF map_of_swift] .
  with swift_implies_ios show ?thesis by blast
qed

text \<open>
  C6.  In the text \<^verbatim>\<open>skills: c++ and python\<close> the word \<^verbatim>\<open>c++\<close> stands as a token between
  white space, and the skill \<^verbatim>\<open>c++\<close> is not extracted from it (the skill \<^verbatim>\<open>python\<close> is):
  \<^verbatim>\<open>\bc\+\+\b\<close> asks for a word boundary behind the second \<^verbatim>\<open>+\<close>, that is, for a word
  character right after it.
\<close>

theorem cpp_token_not_reported:
  "''c++'' \<notin> set (extracted_skills ''skills: c++ and python'') \<and>
   ''python'' \<in> set (extracted_skills ''skills: c++ and python'')"
proof -
  have "re_search True (Alt (wordp ''c++'') (wordp ''cpp'')) ''skills: c++ and python'' = None"
    by code_simp
  moreover have "re_search True (wordp ''python'') ''skills: c++ and python'' \<noteq> None"
    by code_simp
  ultimately show ?thesis
    unfolding extracted_skills_iff [OF map_of_cpp] extracted_skills_iff [OF map_of_python]
    by simp
qed

text \<open>
  C4, as amended.  From every text that holds \<^verbatim>\<open>javascript\<close> as a token the skill
  \<^verbatim>\<open>javascript\<close> is extracted; the skill \<^verbatim>\<open>java\<close> is extracted from it exactly when the
  text also holds \<^verbatim>\<open>java\<close> as a token of its own.
\<close>

theorem javascript_token:
  "has_token ''javascript'' s \<Longrightarrow>
   ''javascript'' \<in> set (extracted_skills s) \<and>
   (''java'' \<in> set (extracted_skills s) \<longleftrightarrow> has_token ''java'' s)"
proof -
  assume t: "has_token ''javascript'' s"
  have "re_search True (wordp ''javascript'') s \<noteq> None \<longleftrightarrow> has_token ''javascript'' s"
    by (rule wordp_search_iff) simp_all
  with t have "re_search True (wordp ''javascript'') s \<noteq> None" by blast
  then show ?thesis
    unfolding extracted_skills_iff [OF map_of_java] extracted_skills_iff [OF map_of_javascript]
      re_search_java re_search_Alt by simp
qed

lemma has_token_java_javascript: "has_token ''javascript'' ''Java and JavaScript''"
  by (rule has_tokenI [of _ "''Java and ''" "''JavaScript''" "[]"]) (simp, code_simp, simp, simp)

theorem javascript_token_witness:
  "has_token ''javascript'' ''Java and JavaScript'' \<and>
   ''javascript'' \<in> set (extracted_skills ''Java and JavaScript'') \<and>
   (''java'' \<in> set (extracted_skills ''Java and JavaScript'')
      \<longleftrightarrow> has_token ''java'' ''Java and JavaScript'')"
  using javascript_token [OF has_token_java_javascript] has_token_java_javascript by simp

text \<open>
  C4, as stated, fails: the text \<^verbatim>\<open>Java and JavaScript\<close> holds the token \<^verbatim>\<open>javascript\<close>,
  and the skill \<^verbatim>\<open>java\<close> is extracted from it.
\<close>

theorem java_reported_with_javascript:
  "\<not> (\<forall>s. has_token ''javascript'' s \<longrightarrow>
         ''javascript'' \<in> set (extracted_skills s) \<and> ''java'' \<notin> set (extracted_skills s))"
proof -
  have "re_search True (seqs [WordB, lit ''java'', WordB, NotAhead (lit ''script'')])
          ''Java and JavaScript'' \<noteq> None"
    by code_simp
  then have "''java'' \<in> set (extracted_skills ''Java and JavaScript'')"
    unfolding extracted_skills_iff [OF map_of_java] .
  with has_token_java_javascript show ?thesis by blast
qed

subsection \<open>Years of experience\<close>

text \<open>The 4-digit years that \<^verbatim>\<open>findall\<close> collects are the year tokens of the text.\<close>

lemma cp_inject: "cp a = cp b \<longleftrightarrow> a = b"
  by (simp add: cp_def)

lemma cp_digits:
  "cp CHR ''0'' = 48" "cp CHR ''1'' = 49" "cp CHR ''2'' = 50" "cp CHR ''8'' = 56" "cp CHR ''9'' = 57"
  by (simp_all add: cp_def)

lemma char_by_cp:
  "cp a = 48 \<longleftrightarrow> a = CHR ''0''" "cp a = 49 \<longleftrightarrow> a = CHR ''1''" "cp a = 50 \<longleftrightarrow> a = CHR ''2''"
  "cp a = 56 \<longleftrightarrow> a = CHR ''8''" "cp a = 57 \<longleftrightarrow> a = CHR ''9''"
  using cp_digits cp_inject by metis+

lemma decimal_4:
  "decimal [a, b, c, d] =
     1000 * int (cp a - 48) + 100 * int (cp b - 48) + 10 * int (cp c - 48) + int (cp d - 48)"
  by (simp add: decimal_def)

lemma year_digits:
  fixes a b c d :: nat
  assumes "a \<le> 9" "b \<le> 9" "c \<le> 9" "d \<le> 9"
  shows "1980 \<le> 1000 * a + 100 * b + 10 * c + d \<and> 1000 * a + 100 * b + 10 * c + d \<le> 2029
     \<longleftrightarrow> (a = 1 \<and> b = 9 \<and> (c = 8 \<or> c = 9)) \<or> (a = 2 \<and> b = 0 \<and> (c = 0 \<or> c = 1 \<or> c = 2))"
proof
  assume h: "1980 \<le> 1000 * a + 100 * b + 10 * c + d \<and> 1000 * a + 100 * b + 10 * c + d \<le> 2029"
  then have "a = 1 \<or> a = 2" using assms by linarith
  then show "(a = 1 \<and> b = 9 \<and> (c = 8 \<or> c = 9)) \<or> (a = 2 \<and> b = 0 \<and> (c = 0 \<or> c = 1 \<or> c = 2))"
  proof
    assume a: "a = 1"
    then have b: "b = 9" using h assms by linarith
    then have "c = 8 \<or> c = 9" using h a assms by linarith
    with a b show ?thesis by blast
  next
    assume a: "a = 2"
    then have b: "b = 0" using h assms by linarith
    then have "c = 0 \<or> c = 1 \<or> c = 2" using h a assms by linarith
    with a b show ?thesis by blast
  qed
next
  assume "(a = 1 \<and> b = 9 \<and> (c = 8 \<or> c = 9)) \<or> (a = 2 \<and> b = 0 \<and> (c = 0 \<or> c = 1 \<or> c = 2))"
  then show "1980 \<le> 1000 * a + 100 * b + 10 * c + d \<and> 1000 * a + 100 * b + 10 * c + d \<le> 2029"
    using assms by auto
qed

lemma year_word_4:
  "year_word [a, b, c, d] \<longleftrightarrow>
     (a = CHR ''1'' \<and> b = CHR ''9'' \<and> (c = CHR ''8'' \<or> c = CHR ''9'') \<and> is_digit d) \<or>
     (a = CHR ''2'' \<and> b = CHR ''0'' \<and> (c = CHR ''0'' \<or> c = CHR ''1'' \<or> c = CHR ''2'') \<and> is_digit d)"
proof (cases "is_digit a \<and> is_digit b \<and> is_digit c \<and> is_digit d")
  case False
  then show ?thesis
    by (auto simp: year_word_def is_digit_def in_range_def cp_digits)
next
  case True
  define a' b' c' d' where "a' = cp a - 48" and "b' = cp b - 48" and "c' = cp c - 48" and "d' = cp d - 48"
  have le: "a' \<le> 9" "b' \<le> 9" "c' \<le> 9" "d' \<le> 9"
    and cps: "cp a = a' + 48" "cp b = b' + 48" "cp c = c' + 48" "cp d = d' + 48"
    using True by (auto simp: is_digit_def in_range_def a'_def b'_def c'_def d'_def)
  have "decimal [a, b, c, d] = int (1000 * a' + 100 * b' + 10 * c' + d')"
    by (simp add: decimal_4 a'_def b'_def c'_def d'_def)
  then have "year_word [a, b, c, d] \<longleftrightarrow>
      1980 \<le> 1000 * a' + 100 * b' + 10 * c' + d' \<and> 1000 * a' + 100 * b' + 10 * c' + d' \<le> 2029"
    using True by (simp add: year_word_def) linarith
  also have "\<dots> \<longleftrightarrow> (a' = 1 \<and> b' = 9 \<and> (c' = 8 \<or> c' = 9)) \<or>
      (a' = 2 \<and> b' = 0 \<and> (c' = 0 \<or> c' = 1 \<or> c' = 2))"
    by (rule year_digits [OF le])
  also have "\<dots> \<longleftrightarrow> (cp a = 49 \<and> cp b = 57 \<and> (cp c = 56 \<or> cp c = 57)) \<or>
     (cp a = 50 \<and> cp b = 48 \<and> (cp c = 48 \<or> cp c = 49 \<or> cp c = 50))"
    unfolding cps by auto
  finally show ?thesis using True by (simp only: char_by_cp) simp
qed

lemma is_digit_is_word: "is_digit c \<Longrightarrow> is_word c"
  by (simp add: is_digit_def is_word_def Let_def in_range_def)

lemma year_word_length: "year_word w \<Longrightarrow> length w = 4"
  by (simp add: year_word_def)

lemma year_word_digits: "year_word w \<Longrightarrow> c \<in> set w \<Longrightarrow> is_word c"
  by (auto simp: year_word_def list_all_iff intro: is_digit_is_word)

lemma list4_cases:
  obtains "s = []" | a where "s = [a]" | a b where "s = [a, b]" | a b c where "s = [a, b, c]"
  | a b c d rest where "s = a # b # c # d # rest"
  by (metis list.exhaust)

lemma rm_year_alt:
  "rm False year_alt (p, s, caps) =
     (if year_word (take 4 s) then [(Some (s ! 3), drop 4 s, caps)] else [])"
proof (cases s rule: list4_cases)
  case 1
  then show ?thesis by (auto simp: year_alt_def lit_def dest: year_word_length)
next
  case (2 a)
  then show ?thesis by (auto simp: year_alt_def lit_def dest: year_word_length)
next
  case (3 a b)
  then show ?thesis by (auto simp: year_alt_def lit_def dest: year_word_length)
next
  case (4 a b c)
  then show ?thesis by (auto simp: year_alt_def lit_def dest: year_word_length)
next
  case (5 a b c d rest)
  then show ?thesis
    by (simp add: year_word_4 year_alt_def lit_def)
qed

lemma year_pattern_alt: "year_pattern = Seq WordB (Seq (Group 1 year_alt) WordB)"
  by (simp add: year_pattern_def year_alt_def)

lemma rm_year_pattern:
  "rm False year_pattern (p, s, []) =
     (if year_here p s then [(Some (s ! 3), drop 4 s, [(1, take 4 s)])] else [])"
proof (cases "year_word (take 4 s)")
  case False
  then show ?thesis
    by (simp add: year_pattern_alt rm_year_alt year_here_def)
next
  case True
  then have len: "length s \<ge> 4" by (auto dest: year_word_length)
  then obtain a b c d rest where s: "s = a # b # c # d # rest"
    by (cases s rule: list4_cases) auto
  have wa: "is_word a" "is_word d"
    using True year_word_digits [of "take 4 s"] s by auto
  show ?thesis
    using True wa
    by (simp add: year_pattern_alt rm_year_alt year_here_def s word_after_def word_before_def)
qed

lemma year_tokens_from_Nil [simp]: "year_tokens_from p [] = {}"
  by (auto simp: year_tokens_from_def dest: year_word_length)

lemma year_tokens_from_Cons:
  "year_tokens_from p (c # cs) =
     (if year_here p (c # cs) then {take 4 (c # cs)} else {}) \<union> year_tokens_from (Some c) cs"
  (is "?L = ?R")
proof (intro set_eqI iffI)
  fix w assume "w \<in> ?L"
  then obtain pre post where w: "year_word w" and e: "c # cs = pre @ w @ post"
    and b: "\<not> word_before (prev_char p pre)" "\<not> word_after post"
    by (auto simp: year_tokens_from_def)
  show "w \<in> ?R"
  proof (cases pre)
    case Nil
    then have "take 4 (c # cs) = w" "drop 4 (c # cs) = post"
      using e year_word_length [OF w] by auto
    then have "year_here p (c # cs)" using w b Nil by (simp add: year_here_def)
    then show ?thesis using \<open>take 4 (c # cs) = w\<close> by simp
  next
    case (Cons x pre')
    then have "cs = pre' @ w @ post" "x = c" using e by auto
    then have "w \<in> year_tokens_from (Some c) cs"
      using w b Cons by (auto simp: year_tokens_from_def)
    then show ?thesis by simp
  qed
next
  fix w assume "w \<in> ?R"
  then consider "year_here p (c # cs)" "w = take 4 (c # cs)" | "w \<in> year_tokens_from (Some c) cs"
    by (auto split: if_splits)
  then show "w \<in> ?L"
  proof cases
    case 1
    then have "year_word w \<and> c # cs = [] @ w @ drop 4 (c # cs) \<and>
      \<not> word_before (prev_char p []) \<and> \<not> word_after (drop 4 (c # cs))"
      by (simp add: year_here_def)
    then show ?thesis unfolding year_tokens_from_def by blast
  next
    case 2
    then obtain pre post where "year_word w" "cs = pre @ w @ post"
      "\<not> word_before (prev_char (Some c) pre)" "\<not> word_after post"
      by (auto simp: year_tokens_from_def)
    then have "year_word w \<and> c # cs = (c # pre) @ w @ post \<and>
      \<not> word_before (prev_char p (c # pre)) \<and> \<not> word_after post"
      by simp
    then show ?thesis unfolding year_tokens_from_def by blast
  qed
qed

lemma year_tokens_from_word:
  "is_word c \<Longrightarrow> year_tokens_from (Some c) (d # cs) = year_tokens_from (Some d) cs"
  by (simp add: year_tokens_from_Cons year_here_def word_before_def)

lemma year_tokens_from_match:
  assumes "year_here p s"
  shows "year_tokens_from p s = insert (take 4 s) (year_tokens_from (Some (s ! 3)) (drop 4 s))"
proof -
  from assms have yw: "year_word (take 4 s)" by (simp add: year_here_def)
  then have "length s \<ge> 4" by (auto dest: year_word_length)
  then obtain a b c d rest where s: "s = a # b # c # d # rest"
    by (cases s rule: list4_cases) auto
  have w: "is_word a" "is_word b" "is_word c"
    using yw year_word_digits [of "take 4 s"] s by auto
  have "year_tokens_from p s = insert (take 4 s) (year_tokens_from (Some a) (b # c # d # rest))"
    using assms by (simp add: s year_tokens_from_Cons)
  also have "year_tokens_from (Some a) (b # c # d # rest) = year_tokens_from (Some d) rest"
    using w by (simp add: year_tokens_from_word)
  finally show ?thesis by (simp add: s)
qed

lemma findall_years:
  "set (map group1 (findall_from False year_pattern p s)) = year_tokens_from p s"
proof (induction s arbitrary: p rule: length_induct)
  case (1 s)
  show ?case
  proof (cases "year_here p s")
    case True
    then have yw: "year_word (take 4 s)" by (simp add: year_here_def)
    then have len: "length s \<ge> 4" by (auto dest: year_word_length)
    then have lt: "length (drop 4 s) < length s" by simp
    have "findall_from False year_pattern p s =
        \<lparr>group0 = take (length s - length (drop 4 s)) s, groups = [(1, take 4 s)]\<rparr> #
        findall_from False year_pattern (Some (s ! 3)) (drop 4 s)"
      using True lt by (subst findall_from.simps) (simp add: rm_year_pattern)
    then show ?thesis
      using 1 [rule_format, OF lt, of "Some (s ! 3)"] year_tokens_from_match [OF True]
      by (simp add: group1_def group_n_def)
  next
    case False
    show ?thesis
    proof (cases s)
      case Nil
      then show ?thesis using False by (subst findall_from.simps) (simp add: rm_year_pattern)
    next
      case (Cons c cs)
      have "findall_from False year_pattern p s = findall_from False year_pattern (Some c) cs"
        using False Cons by (subst findall_from.simps) (simp add: rm_year_pattern)
      then show ?thesis
        using 1 [rule_format, of cs "Some c"] False Cons by (simp add: year_tokens_from_Cons)
    qed
  qed
qed

lemma re_findall1_years: "set (re_findall1 False year_pattern s) = year_tokens s"
  using findall_years [of None s]
  by (simp add: re_findall1_def year_tokens_def group1_def [abs_def])

lemma sorted_hd_Min: "sorted xs \<Longrightarrow> xs \<noteq> [] \<Longrightarrow> hd xs = Min (set xs)"
  for xs :: "int list"
  by (cases xs) (auto intro!: Min_eqI [symmetric])

lemma sorted_last_Max: "sorted xs \<Longrightarrow> xs \<noteq> [] \<Longrightarrow> last xs = Max (set xs)"
  for xs :: "int list"
proof (induction xs)
  case Nil
  then show ?case by simp
next
  case (Cons x xs)
  show ?case
  proof (cases "xs = []")
    case True
    then show ?thesis by simp
  next
    case False
    with Cons have "last xs = Max (set xs)" by simp
    moreover have "x \<le> Max (set xs)" using Cons.prems False
      by (metis List.finite_set Max_ge last_in_set calculation sorted_simps(2))
    ultimately show ?thesis using False by (simp add: max_absorb2)
  qed
qed

text \<open>
  Patterns without groups, word boundaries and look-aheads match by the text alone; a group
  in such a pattern records the text it covers.
\<close>

lemma cat_assoc: "cat (cat A B) C = cat A (cat B C)"
proof (intro set_eqI iffI)
  fix x assume "x \<in> cat (cat A B) C"
  then obtain a b c where "x = (a @ b) @ c" "a \<in> A" "b \<in> B" "c \<in> C"
    unfolding cat_def by blast
  then have "x = a @ (b @ c) \<and> a \<in> A \<and> b @ c \<in> cat B C" unfolding cat_def by auto
  then show "x \<in> cat A (cat B C)" unfolding cat_def by blast
next
  fix x assume "x \<in> cat A (cat B C)"
  then obtain a b c where "x = a @ (b @ c)" "a \<in> A" "b \<in> B" "c \<in> C"
    unfolding cat_def by blast
  then have "x = (a @ b) @ c \<and> a @ b \<in> cat A B \<and> c \<in> C" unfolding cat_def by auto
  then show "x \<in> cat (cat A B) C" unfolding cat_def by blast
qed

lemma cat_Nil [simp]: "cat {[]} X = X"
  by (auto simp: cat_def)

lemma rm_plain_caps:
  "plain r \<Longrightarrow> (p', s', c') \<in> set (rm ic r (p, s, caps)) \<Longrightarrow> c' = caps"
proof (induction r arbitrary: p s caps p' s' c')
  case (Seq r1 r2)
  from Seq.prems obtain p1 s1 c1 where
    a: "(p1, s1, c1) \<in> set (rm ic r1 (p, s, caps))" and b: "(p', s', c') \<in> set (rm ic r2 (p1, s1, c1))"
    by auto
  from Seq.prems(1) have "plain r1" "plain r2" by simp_all
  from Seq.IH(1) [OF \<open>plain r1\<close> a] Seq.IH(2) [OF \<open>plain r2\<close> b] show ?case by simp
next
  case (Star a)
  then show ?case by (auto dest: star_run_caps)
next
  case (Plus a)
  then show ?case by (auto dest: star_run_caps split: list.splits if_splits)
qed (auto split: list.splits if_splits)

lemma ends_lang:
  "plain r \<Longrightarrow> ends ic r p s = {(prev_char p w, s') |w s'. s = w @ s' \<and> w \<in> lang ic r}"
proof (induction r arbitrary: p s)
  case Eps
  then show ?case by auto
next
  case (Atom a)
  then show ?case by (cases s) (auto simp: ends_Atom)
next
  case (Seq r1 r2)
  then have p1: "plain r1" and p2: "plain r2" by simp_all
  show ?case (is "?L = ?R")
  proof (intro set_eqI iffI)
    fix x assume "x \<in> ?L"
    then obtain u s1 v s' where "s = u @ s1" "u \<in> lang ic r1" "s1 = v @ s'" "v \<in> lang ic r2"
      "x = (prev_char (prev_char p u) v, s')"
      unfolding ends_Seq Seq.IH(1) [OF p1] Seq.IH(2) [OF p2] by blast
    then have "x = (prev_char p (u @ v), s') \<and> s = (u @ v) @ s' \<and> u @ v \<in> lang ic (Seq r1 r2)"
      by (auto simp: prev_char_append cat_def)
    then show "x \<in> ?R" by blast
  next
    fix x assume "x \<in> ?R"
    then obtain w s' where x: "x = (prev_char p w, s')" and s: "s = w @ s'" and w: "w \<in> lang ic (Seq r1 r2)"
      by blast
    from w obtain u v where uv: "w = u @ v" "u \<in> lang ic r1" "v \<in> lang ic r2"
      by (auto simp: cat_def)
    have "(prev_char p u, v @ s') \<in> ends ic r1 p s"
      unfolding Seq.IH(1) [OF p1] using s uv by auto
    moreover have "x \<in> ends ic r2 (prev_char p u) (v @ s')"
      unfolding Seq.IH(2) [OF p2] using x uv by (auto simp: prev_char_append)
    ultimately show "x \<in> ?L" unfolding ends_Seq by blast
  qed
next
  case (Alt r1 r2)
  then show ?case by auto
next
  case (Opt r)
  then show ?case by (auto simp: optional_def)
next
  case (Star a)
  then show ?case by (simp add: ends_Star)
next
  case (Plus a)
  then show ?case by (simp add: ends_Plus)
qed simp_all

lemma rm_plain_set:
  assumes "plain r"
  shows "set (rm ic r (p, s, caps)) = {(prev_char p w, s', caps) |w s'. s = w @ s' \<and> w \<in> lang ic r}"
    (is "?L = ?R")
proof (intro set_eqI iffI)
  fix x assume x: "x \<in> ?L"
  obtain p' s' c' where xe: "x = (p', s', c')" by (cases x) auto
  from x xe have "c' = caps" using rm_plain_caps [OF assms] by blast
  moreover from x have "proj x \<in> ends ic r p s" unfolding ends_caps [symmetric, of ic r p s caps] by blast
  ultimately show "x \<in> ?R" using xe unfolding ends_lang [OF assms] by auto
next
  fix x assume "x \<in> ?R"
  then obtain w s' where x: "x = (prev_char p w, s', caps)" and s: "s = w @ s'" "w \<in> lang ic r" by blast
  then have "(prev_char p w, s') \<in> ends ic r p s" unfolding ends_lang [OF assms] by blast
  then obtain y where y: "y \<in> set (rm ic r (p, s, caps))" "proj y = (prev_char p w, s')"
    unfolding ends_caps [symmetric, of ic r p s caps] by auto
  obtain p' t' c' where ye: "y = (p', t', c')" by (cases y) auto
  with y have "c' = caps" using rm_plain_caps [OF assms] by blast
  with y ye x show "x \<in> ?L" by simp
qed

lemma rm_group_set:
  assumes "plain r"
  shows "set (rm ic (Group n r) (p, s, caps)) =
     {(prev_char p w, s', (n, w) # caps) |w s'. s = w @ s' \<and> w \<in> lang ic r}"
  by (auto simp: rm_plain_set [OF assms] image_iff) 

lemma rm_captured_set:
  assumes "plain a" "plain g" "plain b"
  shows "set (rm ic (Seq a (Seq (Group n g) b)) (p, s, caps)) =
     {(prev_char p (u @ w @ v), s', (n, w) # caps) |u w v s'.
        s = u @ w @ v @ s' \<and> u \<in> lang ic a \<and> w \<in> lang ic g \<and> v \<in> lang ic b}"
    (is "?L = ?R")
proof (intro set_eqI iffI)
  fix x assume "x \<in> ?L"
  then obtain st1 st2 where 1: "st1 \<in> set (rm ic a (p, s, caps))"
    and 2: "st2 \<in> set (rm ic (Group n g) st1)" and 3: "x \<in> set (rm ic b st2)"
    by auto
  from 1 obtain u s1 where u: "st1 = (prev_char p u, s1, caps)" "s = u @ s1" "u \<in> lang ic a"
    unfolding rm_plain_set [OF assms(1)] by blast
  from 2 obtain w s2 where w: "st2 = (prev_char (prev_char p u) w, s2, (n, w) # caps)" "s1 = w @ s2" "w \<in> lang ic g"
    unfolding u rm_group_set [OF assms(2)] by blast
  from 3 obtain v s' where v: "x = (prev_char (prev_char (prev_char p u) w) v, s', (n, w) # caps)"
    "s2 = v @ s'" "v \<in> lang ic b"
    unfolding w rm_plain_set [OF assms(3)] by blast
  from u w v have "x = (prev_char p (u @ w @ v), s', (n, w) # caps) \<and> s = u @ w @ v @ s' \<and>
      u \<in> lang ic a \<and> w \<in> lang ic g \<and> v \<in> lang ic b"
    by (simp add: prev_char_append)
  then show "x \<in> ?R" by blast
next
  fix x assume "x \<in> ?R"
  then obtain u w v s' where x: "x = (prev_char p (u @ w @ v), s', (n, w) # caps)"
    and s: "s = u @ w @ v @ s'" and l: "u \<in> lang ic a" "w \<in> lang ic g" "v \<in> lang ic b" by blast
  have 1: "(prev_char p u, w @ v @ s', caps) \<in> set (rm ic a (p, s, caps))"
    unfolding rm_plain_set [OF assms(1)] using s l by blast
  have 2: "(prev_char (prev_char p u) w, v @ s', (n, w) # caps)
      \<in> set (rm ic (Group n g) (prev_char p u, w @ v @ s', caps))"
    unfolding rm_group_set [OF assms(2)] using l by blast
  have 3: "x \<in> set (rm ic b (prev_char (prev_char p u) w, v @ s', (n, w) # caps))"
    unfolding rm_plain_set [OF assms(3)] using l x by (auto simp: prev_char_append)
  from 1 2 3 show "x \<in> ?L" by (simp del: rm.simps(11)) blast
qed

text \<open>The three phrase patterns match the three phrasings.\<close>

lemma plain_lit [simp]: "plain (lit w)"
  by (induction w) (simp_all add: lit_Cons)

lemma lang_lit [simp]: "lang False (lit w) = {w}"
  by (induction w) (auto simp: lit_Cons cat_def)

lemma blanks_alt: "{w. \<forall>c \<in> set w. is_space c} = blanks"
  by (simp add: blanks_def list_all_iff)

lemma numerals_alt: "{w. w \<noteq> [] \<and> (\<forall>c \<in> set w. is_digit c)} = numerals"
  by (simp add: numerals_def list_all_iff)

lemma colon_hyphen [simp]: "{[c] |c. c = CHR '':'' \<or> c = CHR ''-''} = {'':'', ''-''}"
  by auto

lemma lang_Lit [simp]: "lang False (Atom (Lit c)) = {[c]}"
  by simp

lemma year_or_years: "cat {''year''} (optional {''s''}) = {''year'', ''years''}"
  by (auto simp: cat_def optional_def)

lemma lang_years_tail:
  "lang False years_tail = cat (optional {''+''}) (cat blanks {''year'', ''years''})"
  by (simp add: years_tail_def year_or_years blanks_alt)

lemma plain_parts [simp]: "plain years_tail" "plain tail_1" "plain tail_2" "plain head_3"
  by (simp_all add: years_tail_def tail_1_def tail_2_def head_3_def)

lemma rm_Seq_fun: "rm ic (Seq a b) = (\<lambda>st. concat (map (rm ic b) (rm ic a st)))"
  by (rule ext) simp

lemma rm_Eps_fun: "rm ic Eps = (\<lambda>st. [st])"
  by (rule ext) simp

lemma concat_map_concat:
  "concat (map g (concat (map f xs))) = concat (map (\<lambda>x. concat (map g (f x))) xs)"
  by (induction xs) simp_all

lemma phrase_1_shape:
  "rm False explicit_phrase_1 = rm False (Seq Eps (Seq (Group 1 (Plus Digit)) tail_1))"
  unfolding explicit_phrase_1_def tail_1_def years_tail_def number_plus_def years_opt_def
  by (simp add: rm_Seq_fun rm_Eps_fun concat_map_concat fun_eq_iff del: rm.simps)

lemma phrase_2_shape:
  "rm False explicit_phrase_2 = rm False (Seq Eps (Seq (Group 1 (Plus Digit)) tail_2))"
  unfolding explicit_phrase_2_def tail_2_def years_tail_def number_plus_def years_opt_def
  by (simp add: rm_Seq_fun rm_Eps_fun concat_map_concat fun_eq_iff del: rm.simps)

lemma phrase_3_shape:
  "rm False explicit_phrase_3 = rm False (Seq head_3 (Seq (Group 1 (Plus Digit)) years_tail))"
  unfolding explicit_phrase_3_def head_3_def years_tail_def number_plus_def years_opt_def
  by (simp add: rm_Seq_fun rm_Eps_fun concat_map_concat fun_eq_iff del: rm.simps)

lemma phrasing_1_parts:
  "phrasing_1 ds = cat (lang False Eps) (cat {ds} (lang False tail_1))"
  by (simp add: phrasing_1_def n_years_def tail_1_def lang_years_tail cat_assoc blanks_alt)

lemma phrasing_2_parts:
  "phrasing_2 ds = cat (lang False Eps) (cat {ds} (lang False tail_2))"
  by (simp add: phrasing_2_def n_years_def tail_2_def lang_years_tail cat_assoc blanks_alt)

lemma phrasing_3_parts:
  "phrasing_3 ds = cat (lang False head_3) (cat {ds} (lang False years_tail))"
  by (simp add: phrasing_3_def n_years_def head_3_def lang_years_tail cat_assoc blanks_alt)

lemma phrase_results:
  assumes shape: "rm False pat = rm False (Seq a (Seq (Group 1 (Plus Digit)) b))"
    and pl: "plain a" "plain b"
    and ph: "\<And>ds. ph ds = cat (lang False a) (cat {ds} (lang False b))"
  shows "set (rm False pat (p, t, [])) =
     {(prev_char p w, s', [(1, ds)]) |w s' ds. t = w @ s' \<and> ds \<in> numerals \<and> w \<in> ph ds}"
    (is "?L = ?R")
proof -
  have pd: "plain (Plus Digit)" by simp
  have L: "?L = {(prev_char p (u @ w @ v), s', [(1, w)]) |u w v s'.
        t = u @ w @ v @ s' \<and> u \<in> lang False a \<and> w \<in> numerals \<and> v \<in> lang False b}"
    unfolding shape rm_captured_set [OF pl(1) pd pl(2)] by (simp add: numerals_alt)
  show ?thesis
  proof (intro set_eqI iffI)
    fix x assume "x \<in> ?L"
    then obtain u w v s' where x: "x = (prev_char p (u @ w @ v), s', [(1, w)])"
      and t: "t = u @ w @ v @ s'" and l: "u \<in> lang False a" "w \<in> numerals" "v \<in> lang False b"
      unfolding L by blast
    have "u @ w @ v \<in> ph w" unfolding ph cat_def using l by blast
    then have "x = (prev_char p (u @ w @ v), s', [(1, w)]) \<and> t = (u @ w @ v) @ s' \<and> w \<in> numerals \<and>
       u @ w @ v \<in> ph w" using x t l by simp
    then show "x \<in> ?R" by blast
  next
    fix x assume "x \<in> ?R"
    then obtain w s' ds where x: "x = (prev_char p w, s', [(1, ds)])" and t: "t = w @ s'"
      and l: "ds \<in> numerals" "w \<in> ph ds" by blast
    from l(2) obtain u v where "w = u @ ds @ v" "u \<in> lang False a" "v \<in> lang False b"
      unfolding ph cat_def by blast
    then have "x = (prev_char p (u @ ds @ v), s', [(1, ds)]) \<and> t = u @ ds @ v @ s' \<and>
       u \<in> lang False a \<and> ds \<in> numerals \<and> v \<in> lang False b" using x t l by simp
    then show "x \<in> ?L" unfolding L by blast
  qed
qed

lemma search_from_Some:
  "search_from ic r p s = Some m \<Longrightarrow>
   \<exists>pre suf p' s' rest. s = pre @ suf \<and>
      rm ic r (prev_char p pre, suf, []) = (p', s', groups m) # rest \<and>
      (\<forall>pre' suf'. s = pre' @ suf' \<and> length pre' < length pre \<longrightarrow>
         rm ic r (prev_char p pre', suf', []) = [])"
proof (induction s arbitrary: p)
  case Nil
  then obtain p' s' rest where "rm ic r (p, [], []) = (p', s', groups m) # rest"
    by (auto simp: match_at_def split: list.splits)
  then have "[] = [] @ [] \<and> rm ic r (prev_char p [], [], []) = (p', s', groups m) # rest \<and>
      (\<forall>pre' suf'. [] = pre' @ suf' \<and> length pre' < length ([] :: string) \<longrightarrow>
         rm ic r (prev_char p pre', suf', []) = [])" by simp
  then show ?case by (intro exI)
next
  case (Cons c cs)
  show ?case
  proof (cases "match_at ic r p (c # cs)")
    case (Some m')
    with Cons.prems have "m' = m" by simp
    with Some obtain p' s' rest where "rm ic r (p, c # cs, []) = (p', s', groups m) # rest"
      by (auto simp: match_at_def split: list.splits)
    then have "c # cs = [] @ c # cs \<and>
      rm ic r (prev_char p [], c # cs, []) = (p', s', groups m) # rest \<and>
      (\<forall>pre' suf'. c # cs = pre' @ suf' \<and> length pre' < length ([] :: string) \<longrightarrow>
         rm ic r (prev_char p pre', suf', []) = [])" by simp
    then show ?thesis by (intro exI)
  next
    case None
    then have e: "rm ic r (p, c # cs, []) = []" by (simp add: match_at_None_iff)
    from None Cons.prems have "search_from ic r (Some c) cs = Some m" by simp
    from Cons.IH [OF this] obtain pre suf p' s' rest where cs: "cs = pre @ suf"
      and h: "rm ic r (prev_char (Some c) pre, suf, []) = (p', s', groups m) # rest"
      and mi: "\<forall>pre' suf'. cs = pre' @ suf' \<and> length pre' < length pre \<longrightarrow>
         rm ic r (prev_char (Some c) pre', suf', []) = []" by blast
    have "rm ic r (prev_char p pre', suf', []) = []"
      if "c # cs = pre' @ suf'" "length pre' < length (c # pre)" for pre' suf'
    proof (cases pre')
      case Nil
      with that e show ?thesis by simp
    next
      case (Cons d pre'')
      with that have "cs = pre'' @ suf'" "length pre'' < length pre" "d = c" by auto
      with mi Cons show ?thesis by simp
    qed
    then have "c # cs = (c # pre) @ suf \<and>
      rm ic r (prev_char p (c # pre), suf, []) = (p', s', groups m) # rest \<and>
      (\<forall>pre' suf'. c # cs = pre' @ suf' \<and> length pre' < length (c # pre) \<longrightarrow>
         rm ic r (prev_char p pre', suf', []) = [])" using cs h by simp
    then show ?thesis by (intro exI)
  qed
qed

text \<open>\<^verbatim>\<open>re.search\<close> finds the first occurrence of a phrasing, and its number.\<close>

lemma captures_set:
  "captures pat ph \<Longrightarrow> set (rm False pat (p, t, [])) =
     {(prev_char p w, s', [(1, ds)]) |w s' ds. t = w @ s' \<and> ds \<in> numerals \<and> w \<in> ph ds}"
  unfolding captures_def by (elim allE)

lemma occurs_iff:
  assumes c: "captures pat ph"
  shows "occurs ph s i ds \<longleftrightarrow>
     (\<exists>pre suf p' s'. s = pre @ suf \<and> length pre = i \<and>
        (p', s', [(1, ds)]) \<in> set (rm False pat (prev_char None pre, suf, [])))"
proof
  assume "occurs ph s i ds"
  then obtain pre w post where a: "ds \<in> numerals" "s = pre @ w @ post" "length pre = i" "w \<in> ph ds"
    unfolding occurs_def by (elim conjE exE)
  have "(prev_char (prev_char None pre) w, post, [(1, ds)])
      \<in> set (rm False pat (prev_char None pre, w @ post, []))"
    unfolding captures_set [OF c] mem_Collect_eq
    by (rule exI [of _ w], rule exI [of _ post], rule exI [of _ ds]) (simp add: a)
  with a(2,3) show "\<exists>pre suf p' s'. s = pre @ suf \<and> length pre = i \<and>
        (p', s', [(1, ds)]) \<in> set (rm False pat (prev_char None pre, suf, []))"
    by (intro exI conjI)
next
  assume "\<exists>pre suf p' s'. s = pre @ suf \<and> length pre = i \<and>
        (p', s', [(1, ds)]) \<in> set (rm False pat (prev_char None pre, suf, []))"
  then obtain pre suf p' s' where a: "s = pre @ suf" "length pre = i"
    and b: "(p', s', [(1, ds)]) \<in> set (rm False pat (prev_char None pre, suf, []))"
    by (elim conjE exE)
  from b obtain w t' ds' where c: "(p', s', [(1, ds)]) = (prev_char (prev_char None pre) w, t', [(1, ds')])"
    "suf = w @ t'" "ds' \<in> numerals" "w \<in> ph ds'"
    unfolding captures_set [OF c] mem_Collect_eq by blast
  then have "ds' = ds" by simp
  with c a have "ds \<in> numerals \<and> s = pre @ w @ t' \<and> length pre = i \<and> w \<in> ph ds" by simp
  then show "occurs ph s i ds" unfolding occurs_def by blast
qed

lemma phrase_search_None:
  assumes c: "captures pat ph"
  shows "re_search False pat s = None \<longleftrightarrow> \<not> found ph s"
proof
  assume n: "re_search False pat s = None"
  show "\<not> found ph s"
  proof
    assume "found ph s"
    then obtain i ds pre suf p' s' where s: "s = pre @ suf"
      and e: "(p', s', [(1, ds)]) \<in> set (rm False pat (prev_char None pre, suf, []))"
      unfolding found_def occurs_iff [OF c] by (elim conjE exE)
    from n [unfolded re_search_None_iff, rule_format, OF s] e show False by simp
  qed
next
  assume nf: "\<not> found ph s"
  show "re_search False pat s = None"
    unfolding re_search_None_iff
  proof (intro allI impI)
    fix pre suf assume s: "s = pre @ suf"
    show "rm False pat (prev_char None pre, suf, []) = []"
    proof (rule ccontr)
      assume "rm False pat (prev_char None pre, suf, []) \<noteq> []"
      then obtain x where x: "x \<in> set (rm False pat (prev_char None pre, suf, []))"
        by (cases "rm False pat (prev_char None pre, suf, [])") auto
      then obtain w s' ds where "x = (prev_char (prev_char None pre) w, s', [(1, ds)])"
        unfolding captures_set [OF c] mem_Collect_eq by blast
      with x s have "\<exists>pre0 suf0 p' s'. s = pre0 @ suf0 \<and> length pre0 = length pre \<and>
        (p', s', [(1, ds)]) \<in> set (rm False pat (prev_char None pre0, suf0, []))"
        by (intro exI conjI) simp_all
      then have "occurs ph s (length pre) ds"
        unfolding occurs_iff [OF c] .
      then have "found ph s" unfolding found_def by (intro exI)
      with nf show False by simp
    qed
  qed
qed

lemma phrase_search_Some:
  assumes c: "captures pat ph"
    and m: "re_search False pat s = Some m"
  shows "\<exists>ds. group_n m 1 = Some ds \<and> first_number ph s ds"
proof -
  from search_from_Some [OF m [unfolded re_search_def]]
  obtain pre suf p' s' rest where s: "s = pre @ suf"
    and h: "rm False pat (prev_char None pre, suf, []) = (p', s', groups m) # rest"
    and mi: "\<forall>pre' suf'. s = pre' @ suf' \<and> length pre' < length pre \<longrightarrow>
         rm False pat (prev_char None pre', suf', []) = []" by (elim conjE exE)
  from h have el: "(p', s', groups m) \<in> set (rm False pat (prev_char None pre, suf, []))" by simp
  then obtain w t' ds where "(p', s', groups m) = (prev_char (prev_char None pre) w, t', [(1, ds)])"
    unfolding captures_set [OF c] mem_Collect_eq by blast
  then have g: "groups m = [(1, ds)]" by simp
  from el s have "\<exists>pre0 suf0 p' s'. s = pre0 @ suf0 \<and> length pre0 = length pre \<and>
        (p', s', [(1, ds)]) \<in> set (rm False pat (prev_char None pre0, suf0, []))"
    unfolding g by (intro exI conjI) simp_all
  then have o: "occurs ph s (length pre) ds"
    unfolding occurs_iff [OF c] .
  have le: "length pre \<le> j" if "occurs ph s j ds'" for j ds'
  proof (rule ccontr)
    assume lt: "\<not> length pre \<le> j"
    from that obtain pre' suf' q' t' where a: "s = pre' @ suf'" "length pre' = j"
      and b: "(q', t', [(1, ds')]) \<in> set (rm False pat (prev_char None pre', suf', []))"
      unfolding occurs_iff [OF c] by (elim conjE exE)
    from lt a have "s = pre' @ suf' \<and> length pre' < length pre" by simp
    from mi [rule_format, OF this] b show False by simp
  qed
  have "first_number ph s ds" unfolding first_number_def
    by (rule exI [of _ "length pre"]) (use o le in blast)
  moreover have "group_n m 1 = Some ds" by (simp add: group_n_def g)
  ultimately show ?thesis by (intro exI conjI)
qed

lemma first_number_found: "first_number ph s ds \<Longrightarrow> found ph s"
  unfolding first_number_def found_def by blast

lemma first_number_unique:
  assumes det: "determined ph"
    and a: "first_number ph s ds" and b: "first_number ph s ds'"
  shows "ds = ds'"
proof -
  from a obtain i where i: "occurs ph s i ds" "\<forall>j ds'. occurs ph s j ds' \<longrightarrow> i \<le> j"
    unfolding first_number_def by (elim conjE exE)
  from b obtain i' where i': "occurs ph s i' ds'" "\<forall>j ds''. occurs ph s j ds'' \<longrightarrow> i' \<le> j"
    unfolding first_number_def by (elim conjE exE)
  from i(2) [rule_format, OF i'(1)] i'(2) [rule_format, OF i(1)] have ii: "i = i'" by simp
  from i(1) obtain pre w post where 1: "ds \<in> numerals" "s = pre @ w @ post" "length pre = i" "w \<in> ph ds"
    unfolding occurs_def by (elim conjE exE)
  from i'(1) obtain pre' w' post' where 2: "ds' \<in> numerals" "s = pre' @ w' @ post'" "length pre' = i'" "w' \<in> ph ds'"
    unfolding occurs_def by (elim conjE exE)
  from 1(2) 2(2) have "pre @ (w @ post) = pre' @ (w' @ post')" by simp
  moreover from 1(3) 2(3) ii have "length pre = length pre'" by simp
  ultimately have "w @ post = w' @ post'" by (simp add: append_eq_append_conv)
  with det 1(1) 2(1) 1(4) 2(4) show ?thesis unfolding determined_def by blast
qed

text \<open>The number of a phrasing is fixed by the place where the phrasing begins.\<close>

lemma span_unique:
  assumes e: "xs @ r = ys @ r'" and xs: "\<forall>x \<in> set xs. P x" and ys: "\<forall>x \<in> set ys. P x"
    and r: "r \<noteq> [] \<and> \<not> P (hd r)" and r': "r' \<noteq> [] \<and> \<not> P (hd r')"
  shows "xs = ys \<and> r = r'"
proof -
  have t: "takeWhile P (zs @ q) = zs" if "\<forall>x \<in> set zs. P x" "q \<noteq> [] \<and> \<not> P (hd q)" for zs q
    using that by (cases q) (simp_all add: takeWhile_append2)
  have "xs = takeWhile P (xs @ r)" using t [OF xs r] by simp
  also have "\<dots> = takeWhile P (ys @ r')" using e by simp
  also have "\<dots> = ys" using t [OF ys r'] .
  finally have "xs = ys" .
  with e show ?thesis by simp
qed

lemma digit_not_space: "is_digit c \<Longrightarrow> \<not> is_space c"
  by (auto simp: is_digit_def is_space_def in_range_def Let_def)

lemma numerals_hd: "ds \<in> numerals \<Longrightarrow> ds \<noteq> [] \<and> is_digit (hd ds) \<and> is_digit (last ds)"
  by (cases ds) (auto simp: numerals_def list_all_iff)

lemma numerals_all: "ds \<in> numerals \<Longrightarrow> \<forall>c \<in> set ds. is_digit c"
  by (simp add: numerals_def list_all_iff)

lemma blanks_all: "b \<in> blanks \<Longrightarrow> \<forall>c \<in> set b. is_space c"
  by (simp add: blanks_def list_all_iff)

lemma not_digit_chars: "\<not> is_digit CHR ''+''" "\<not> is_digit CHR ''y''" "\<not> is_digit CHR ''-''"
  "\<not> is_digit CHR ''_''" "\<not> is_space CHR '':''" "\<not> is_space CHR ''-''"
  by code_simp+

lemma years_tail_hd:
  assumes "v \<in> cat (lang False years_tail) X"
  shows "v \<noteq> [] \<and> \<not> is_digit (hd v)"
proof -
  from assms obtain pl b y x where v: "v = (pl @ b @ y) @ x" and pl: "pl = [] \<or> pl = ''+''"
    and b: "b \<in> blanks" and y: "y = ''year'' \<or> y = ''years''"
    unfolding lang_years_tail cat_def optional_def by blast
  show ?thesis
  proof (cases "pl = []")
    case False
    with pl v show ?thesis by (simp add: not_digit_chars)
  next
    case True
    show ?thesis
    proof (cases b)
      case Nil
      with True v y show ?thesis by (auto simp: not_digit_chars)
    next
      case (Cons c b')
      with b have "is_space c" by (simp add: blanks_def)
      with Cons True v show ?thesis by (auto dest: digit_not_space)
    qed
  qed
qed

lemma det_parts:
  assumes ph: "\<And>ds. ph ds = cat H (cat {ds} T)"
    and H: "\<forall>u u' r r'. u \<in> H \<and> u' \<in> H \<and> u @ r = u' @ r' \<and>
        (r \<noteq> [] \<and> is_digit (hd r)) \<and> (r' \<noteq> [] \<and> is_digit (hd r')) \<longrightarrow> u = u'"
    and T: "\<forall>v \<in> T. v \<noteq> [] \<and> \<not> is_digit (hd v)"
  shows "determined ph"
  unfolding determined_def
proof (intro allI impI, elim conjE)
  fix w post w' post' ds ds'
  assume e: "w @ post = w' @ post'" and n: "ds \<in> numerals" "ds' \<in> numerals"
    and w: "w \<in> ph ds" "w' \<in> ph ds'"
  from w(1) obtain u v where 1: "w = u @ ds @ v" "u \<in> H" "v \<in> T" unfolding ph cat_def by blast
  from w(2) obtain u' v' where 2: "w' = u' @ ds' @ v'" "u' \<in> H" "v' \<in> T" unfolding ph cat_def by blast
  from e 1 2 have e': "u @ (ds @ v @ post) = u' @ (ds' @ v' @ post')" by simp
  have "ds @ v @ post \<noteq> [] \<and> is_digit (hd (ds @ v @ post))"
    "ds' @ v' @ post' \<noteq> [] \<and> is_digit (hd (ds' @ v' @ post'))"
    using numerals_hd [OF n(1)] numerals_hd [OF n(2)] by simp_all
  with H 1(2) 2(2) e' have "u = u'" by blast
  with e' have "ds @ (v @ post) = ds' @ (v' @ post')" by simp
  moreover have "v @ post \<noteq> [] \<and> \<not> is_digit (hd (v @ post))"
    "v' @ post' \<noteq> [] \<and> \<not> is_digit (hd (v' @ post'))"
    using T 1(3) 2(3) by simp_all
  ultimately show "ds = ds'"
    using span_unique [of ds "v @ post" ds' "v' @ post'" is_digit] numerals_all [OF n(1)] numerals_all [OF n(2)]
    by blast
qed

lemma lang_head_3:
  "lang False head_3 = cat {''experience''} (cat blanks (cat {'':'', ''-''} blanks))"
  by (simp add: head_3_def blanks_alt)

lemma head_3_unique:
  assumes u: "u \<in> lang False head_3" "u' \<in> lang False head_3" and e: "u @ r = u' @ r'"
    and r: "r \<noteq> [] \<and> is_digit (hd r)" "r' \<noteq> [] \<and> is_digit (hd r')"
  shows "u = u'"
proof -
  have parts: "\<exists>b c b2. x = ''experience'' @ b @ [c] @ b2 \<and> b \<in> blanks \<and> b2 \<in> blanks \<and> \<not> is_space c"
    if "x \<in> lang False head_3" for x
  proof -
    from that obtain b c b2 where "x = ''experience'' @ b @ c @ b2" "b \<in> blanks" "b2 \<in> blanks"
      "c = '':'' \<or> c = ''-''"
      unfolding lang_head_3 cat_def by blast
    then have "x = ''experience'' @ b @ [hd c] @ b2 \<and> b \<in> blanks \<and> b2 \<in> blanks \<and> \<not> is_space (hd c)"
      by (auto simp: not_digit_chars)
    then show ?thesis by blast
  qed
  from parts [OF u(1)] obtain b c b2 where 1: "u = ''experience'' @ b @ [c] @ b2" "b \<in> blanks"
    "b2 \<in> blanks" "\<not> is_space c" by blast
  from parts [OF u(2)] obtain b' c' b2' where 2: "u' = ''experience'' @ b' @ [c'] @ b2'" "b' \<in> blanks"
    "b2' \<in> blanks" "\<not> is_space c'" by blast
  from e 1 2 have "b @ (c # b2 @ r) = b' @ (c' # b2' @ r')" by simp
  from span_unique [OF this blanks_all [OF 1(2)] blanks_all [OF 2(2)]] 1(4) 2(4)
  have b: "b = b'" and "c # b2 @ r = c' # b2' @ r'" by simp_all
  then have c: "c = c'" and "b2 @ r = b2' @ r'" by simp_all
  from span_unique [OF this(2) blanks_all [OF 1(3)] blanks_all [OF 2(3)]] r
  have "b2 = b2'" by (auto dest: digit_not_space)
  with b c 1 2 show ?thesis by simp
qed

text \<open>
  \<^verbatim>\<open>int\<close> on a number: the value is the positional one, and the number is refused when it has
  more than 4300 digits.
\<close>

lemma decimal_snoc: "decimal (ds @ [c]) = 10 * decimal ds + int (cp c - 48)"
  by (simp add: decimal_def)

lemma decimal_positional:
  "decimal ds = (\<Sum>i<length ds. int (cp (ds ! i) - 48) * 10 ^ (length ds - Suc i))"
proof (induction ds rule: rev_induct)
  case Nil
  then show ?case by (simp add: decimal_def)
next
  case (snoc c ds)
  have "(\<Sum>i<length ds. int (cp ((ds @ [c]) ! i) - 48) * 10 ^ (length (ds @ [c]) - Suc i)) =
        (\<Sum>i<length ds. 10 * (int (cp (ds ! i) - 48) * 10 ^ (length ds - Suc i)))"
  proof (rule sum.cong [OF refl])
    fix i assume "i \<in> {..<length ds}"
    then have i: "i < length ds" by simp
    then have "length (ds @ [c]) - Suc i = Suc (length ds - Suc i)" by simp
    with i show "int (cp ((ds @ [c]) ! i) - 48) * 10 ^ (length (ds @ [c]) - Suc i) =
        10 * (int (cp (ds ! i) - 48) * 10 ^ (length ds - Suc i))"
      by (simp add: nth_append)
  qed
  also have "\<dots> = 10 * decimal ds" by (simp add: snoc.IH sum_distrib_left)
  finally show ?case by (simp add: decimal_snoc)
qed

lemma int_digits_numeral:
  "ds \<noteq> [] \<Longrightarrow> \<forall>c \<in> set ds. is_digit c \<Longrightarrow> int_digits ds = Some ds"
proof (induction ds rule: int_digits.induct)
  case 1
  then show ?case by simp
next
  case (2 c)
  then show ?case by simp
next
  case (3 c d cs)
  then have "d \<noteq> CHR ''_''" using not_digit_chars(4) by auto
  with 3 show ?case by simp
qed

lemma digit_not_int_space: "is_digit c \<Longrightarrow> \<not> is_int_space c \<and> c \<noteq> CHR ''-'' \<and> c \<noteq> CHR ''+''"
  using not_digit_chars by (auto simp: is_digit_def is_int_space_def in_range_def Let_def)

lemma py_int_numeral:
  assumes "ds \<in> numerals"
  shows "py_int ds = (if length ds > 4300 then Inl Value_Error else Inr (decimal ds))"
proof -
  from numerals_hd [OF assms] have ne: "ds \<noteq> []" and h: "is_digit (hd ds)"
    and l: "is_digit (last ds)" by simp_all
  have "hd (rev ds) = last ds" using ne by (simp add: hd_rev)
  then have "dropWhile is_int_space (rev ds) = rev ds"
    using l digit_not_int_space [of "last ds"] by (simp add: dropWhile_eq_self_iff)
  moreover have d: "dropWhile is_int_space ds = ds"
    using h digit_not_int_space [of "hd ds"] by (simp add: dropWhile_eq_self_iff)
  moreover have "int_digits ds = Some ds"
    using int_digits_numeral [OF ne] numerals_all [OF assms] by simp
  moreover obtain c cs where ds: "ds = c # cs" using ne by (cases ds) auto
  moreover have "c \<noteq> CHR ''-''" "c \<noteq> CHR ''+''"
    using h ds digit_not_int_space [of c] by simp_all
  ultimately show ?thesis
    by (simp add: py_int_def Let_def max_str_digits_def)
qed

lemma year_word_numeral: "year_word y \<Longrightarrow> y \<in> numerals \<and> length y = 4"
  by (auto simp: year_word_def numerals_def)

lemma int_all_years: "\<forall>y \<in> set ys. year_word y \<Longrightarrow> int_all ys = Inr (map decimal ys)"
proof (induction ys)
  case Nil
  then show ?case by simp
next
  case (Cons y ys)
  then have "py_int y = Inr (decimal y)"
    using year_word_numeral [of y] by (simp add: py_int_numeral)
  with Cons show ?case by simp
qed

lemma cat_Nil_right: "cat X {[]} = X"
  by (auto simp: cat_def)

lemma tail_1_hd: "v \<in> lang False tail_1 \<Longrightarrow> v \<noteq> [] \<and> \<not> is_digit (hd v)"
  unfolding tail_1_def seqs.simps lang.simps by (rule years_tail_hd)

lemma tail_2_hd: "v \<in> lang False tail_2 \<Longrightarrow> v \<noteq> [] \<and> \<not> is_digit (hd v)"
  unfolding tail_2_def seqs.simps lang.simps by (rule years_tail_hd)

lemma tail_3_hd: "v \<in> lang False years_tail \<Longrightarrow> v \<noteq> [] \<and> \<not> is_digit (hd v)"
proof -
  assume "v \<in> lang False years_tail"
  then have "v \<in> cat (lang False years_tail) {[]}" by (simp add: cat_Nil_right)
  then show ?thesis by (rule years_tail_hd)
qed

lemma phrase_1_captures: "captures explicit_phrase_1 phrasing_1"
  unfolding captures_def
  by (intro allI, rule phrase_results [OF phrase_1_shape]) (simp_all add: phrasing_1_parts)

lemma phrase_2_captures: "captures explicit_phrase_2 phrasing_2"
  unfolding captures_def
  by (intro allI, rule phrase_results [OF phrase_2_shape]) (simp_all add: phrasing_2_parts)

lemma phrase_3_captures: "captures explicit_phrase_3 phrasing_3"
  unfolding captures_def
  by (intro allI, rule phrase_results [OF phrase_3_shape]) (simp_all add: phrasing_3_parts)

lemma phrasing_1_det: "determined phrasing_1"
proof (rule det_parts [OF phrasing_1_parts])
  show "\<forall>u u' r r'. u \<in> lang False Eps \<and> u' \<in> lang False Eps \<and> u @ r = u' @ r' \<and>
        (r \<noteq> [] \<and> is_digit (hd r)) \<and> (r' \<noteq> [] \<and> is_digit (hd r')) \<longrightarrow> u = u'"
    by simp
  show "\<forall>v \<in> lang False tail_1. v \<noteq> [] \<and> \<not> is_digit (hd v)"
    using tail_1_hd by blast
qed

lemma phrasing_2_det: "determined phrasing_2"
proof (rule det_parts [OF phrasing_2_parts])
  show "\<forall>u u' r r'. u \<in> lang False Eps \<and> u' \<in> lang False Eps \<and> u @ r = u' @ r' \<and>
        (r \<noteq> [] \<and> is_digit (hd r)) \<and> (r' \<noteq> [] \<and> is_digit (hd r')) \<longrightarrow> u = u'"
    by simp
  show "\<forall>v \<in> lang False tail_2. v \<noteq> [] \<and> \<not> is_digit (hd v)"
    using tail_2_hd by blast
qed

lemma phrasing_3_det: "determined phrasing_3"
proof (rule det_parts [OF phrasing_3_parts])
  show "\<forall>u u' r r'. u \<in> lang False head_3 \<and> u' \<in> lang False head_3 \<and> u @ r = u' @ r' \<and>
        (r \<noteq> [] \<and> is_digit (hd r)) \<and> (r' \<noteq> [] \<and> is_digit (hd r')) \<longrightarrow> u = u'"
    using head_3_unique by blast
  show "\<forall>v \<in> lang False years_tail. v \<noteq> [] \<and> \<not> is_digit (hd v)"
    using tail_3_hd by blast
qed

lemma occurs_numeral: "occurs ph t i ds \<Longrightarrow> ds \<in> numerals"
  by (simp add: occurs_def)

lemma first_number_numeral: "first_number ph t ds \<Longrightarrow> ds \<in> numerals"
  unfolding first_number_def by (blast dest: occurs_numeral)

lemma found_first:
  assumes c: "captures pat ph"
    and f: "found ph t"
  shows "\<exists>ds. first_number ph t ds"
proof -
  from f have "re_search False pat t \<noteq> None"
    unfolding phrase_search_None [OF c] by simp
  then obtain m where "re_search False pat t = Some m" by (cases "re_search False pat t") auto
  from phrase_search_Some [OF c this] show ?thesis by (elim exE conjE) (rule exI)
qed

lemma step_none:
  assumes c: "captures pat ph"
    and f: "\<not> found ph t"
  shows "phrase_loop ((name, pat) # rest) t s = phrase_loop rest t s"
proof -
  from f have "re_search False pat t = None"
    unfolding phrase_search_None [OF c] .
  then show ?thesis by simp
qed

lemma step_some:
  assumes c: "captures pat ph"
    and det: "determined ph"
    and f: "first_number ph t ds"
  shows "years_and_method (phrase_loop ((name, pat) # rest) t s) =
     (if length ds \<le> 4300 then Inr (decimal ds, name) else Inl Value_Error)"
proof -
  from first_number_found [OF f] have "re_search False pat t \<noteq> None"
    unfolding phrase_search_None [OF c] by simp
  then obtain m where m: "re_search False pat t = Some m" by (cases "re_search False pat t") auto
  from phrase_search_Some [OF c m] obtain ds' where g: "group_n m 1 = Some ds'"
    and f': "first_number ph t ds'" by (elim exE conjE)
  have "ds' = ds" by (rule first_number_unique [OF det f' f])
  with g m py_int_numeral [OF first_number_numeral [OF f]] show ?thesis
    by (simp add: years_and_method_def)
qed

lemma year_span_fallback_spec: "years_and_method (year_span_fallback s) = Inr (year_span s)"
proof -
  let ?ys = "map decimal (re_findall1 False year_pattern s)"
  let ?us = "sort (remdups ?ys)"
  have "\<forall>y \<in> set (re_findall1 False year_pattern s). year_word y"
    unfolding re_findall1_years by (simp add: year_tokens_def year_tokens_from_def)
  then have ia: "int_all (re_findall1 False year_pattern s) = Inr ?ys" by (rule int_all_years)
  have ys: "decimal ` year_tokens s = set ?ys" by (simp add: re_findall1_years)
  have len: "length ?us = card (set ?ys)" by (simp add: length_remdups_card_conv)
  have ne: "?us \<noteq> []" if "2 \<le> card (set ?ys)"
  proof
    assume "?us = []"
    then have "length ?us = 0" by (simp only: list.size)
    with len that show False by linarith
  qed
  have hd: "hd ?us = Min (set ?ys)" if "2 \<le> card (set ?ys)"
    using sorted_hd_Min [of ?us] ne [OF that] by simp
  have la: "last ?us = Max (set ?ys)" if "2 \<le> card (set ?ys)"
    using sorted_last_Max [of ?us] ne [OF that] by simp
  show ?thesis
    unfolding year_span_fallback_def year_span_def Let_def ia ys sum.case len
    by (simp add: hd la years_and_method_def)
qed

lemma extract_first:
  assumes "first_phrasing (py_lower s) name ds"
  shows "years_and_method (extract_experience_years_traced s) =
     (if length ds \<le> 4300 then Inr (decimal ds, name) else Inl Value_Error)"
proof -
  let ?t = "py_lower s"
  from assms consider
      (1) "name = ''explicit_phrase_1''" "first_number phrasing_1 ?t ds"
    | (2) "name = ''explicit_phrase_2''" "\<not> found phrasing_1 ?t" "first_number phrasing_2 ?t ds"
    | (3) "name = ''explicit_phrase_3''" "\<not> found phrasing_1 ?t" "\<not> found phrasing_2 ?t"
          "first_number phrasing_3 ?t ds"
    unfolding first_phrasing_def by blast
  then show ?thesis
  proof cases
    case 1
    show ?thesis
      unfolding extract_experience_years_traced_def patterns_def 1(1)
      by (rule step_some [OF phrase_1_captures phrasing_1_det 1(2)])
  next
    case 2
    show ?thesis
      unfolding extract_experience_years_traced_def patterns_def 2(1)
        step_none [OF phrase_1_captures 2(2)]
      by (rule step_some [OF phrase_2_captures phrasing_2_det 2(3)])
  next
    case 3
    show ?thesis
      unfolding extract_experience_years_traced_def patterns_def 3(1)
        step_none [OF phrase_1_captures 3(2)]
        step_none [OF phrase_2_captures 3(3)]
      by (rule step_some [OF phrase_3_captures phrasing_3_det 3(4)])
  qed
qed

lemma extract_none:
  assumes "\<forall>name ds. \<not> first_phrasing (py_lower s) name ds"
  shows "years_and_method (extract_experience_years_traced s) = Inr (year_span s)"
proof -
  let ?t = "py_lower s"
  have 1: "\<not> found phrasing_1 ?t"
  proof
    assume "found phrasing_1 ?t"
    from found_first [OF phrase_1_captures this] assms
    show False unfolding first_phrasing_def by blast
  qed
  have 2: "\<not> found phrasing_2 ?t"
  proof
    assume "found phrasing_2 ?t"
    from found_first [OF phrase_2_captures this] assms 1
    show False unfolding first_phrasing_def by blast
  qed
  have 3: "\<not> found phrasing_3 ?t"
  proof
    assume "found phrasing_3 ?t"
    from found_first [OF phrase_3_captures this] assms 1 2
    show False unfolding first_phrasing_def by blast
  qed
  have "extract_experience_years_traced s = phrase_loop [] ?t s"
    unfolding extract_experience_years_traced_def patterns_def
    by (simp only: step_none [OF phrase_1_captures 1]
      step_none [OF phrase_2_captures 2]
      step_none [OF phrase_3_captures 3])
  then show ?thesis by (simp add: year_span_fallback_spec)
qed

lemma first_phrasing_unique:
  assumes "first_phrasing t name ds" "first_phrasing t name' ds'"
  shows "name = name' \<and> ds = ds'"
  using assms first_number_found [of phrasing_1 t] first_number_found [of phrasing_2 t]
    first_number_unique [OF phrasing_1_det]
    first_number_unique [OF phrasing_2_det]
    first_number_unique [OF phrasing_3_det]
  unfolding first_phrasing_def by blast

lemma occurs_length:
  assumes ph: "\<And>ds. ph ds = cat H (cat {ds} T)" and o: "occurs ph t i ds"
  shows "length ds \<le> length t"
proof -
  from o obtain pre w post where "t = pre @ w @ post" "w \<in> ph ds" unfolding occurs_def by blast
  moreover then obtain u v where "w = u @ ds @ v" unfolding ph cat_def by blast
  ultimately show ?thesis by simp
qed

lemma first_phrasing_length:
  assumes "first_phrasing t name ds"
  shows "length ds \<le> length t"
proof -
  from assms consider "first_number phrasing_1 t ds" | "first_number phrasing_2 t ds"
    | "first_number phrasing_3 t ds" unfolding first_phrasing_def by blast
  then show ?thesis
    unfolding first_number_def
    using occurs_length [of phrasing_1, OF phrasing_1_parts] occurs_length [of phrasing_2, OF phrasing_2_parts]
      occurs_length [of phrasing_3, OF phrasing_3_parts]
    by cases blast+
qed

lemma years_and_method_Inl: "years_and_method r = Inl e \<Longrightarrow> r = Inl e"
  by (cases r) (simp_all add: years_and_method_def)

lemma catI: "u \<in> A \<Longrightarrow> v \<in> B \<Longrightarrow> u @ v \<in> cat A B"
  unfolding cat_def by blast

lemma phrasing_1_of: "w \<in> phrasing_1 ds \<Longrightarrow> CHR ''o'' \<in> set w"
  unfolding phrasing_1_def cat_def by auto

lemma long_number_phrasing:
  "first_phrasing (replicate 4301 CHR ''1'' @ '' years experience'') ''explicit_phrase_2''
     (replicate 4301 CHR ''1'')"
proof -
  let ?ds = "replicate 4301 CHR ''1''"
  let ?s = "?ds @ '' years experience''"
  have d1: "is_digit CHR ''1''" and sp: "is_space CHR '' ''" by code_simp+
  have num: "?ds \<in> numerals" using d1 by (simp add: numerals_def list_all_iff)
  have "(?ds @ [] @ '' '' @ ''years'') @ '' '' @ ''experience'' \<in> phrasing_2 ?ds"
    unfolding phrasing_2_def n_years_def
    by (intro catI) (simp_all add: optional_def blanks_def sp)
  then have w: "?s \<in> phrasing_2 ?ds" by simp
  have "?s = [] @ ?s @ [] \<and> length ([] :: string) = 0 \<and> ?s \<in> phrasing_2 ?ds"
    using w by simp
  then have "\<exists>pre w post. ?s = pre @ w @ post \<and> length pre = 0 \<and> w \<in> phrasing_2 ?ds"
    by (intro exI)
  with num have o: "occurs phrasing_2 ?s 0 ?ds" unfolding occurs_def by simp
  have f2: "first_number phrasing_2 ?s ?ds"
    unfolding first_number_def by (rule exI [of _ 0]) (simp add: o)
  have nf1: "\<not> found phrasing_1 ?s"
  proof
    assume "found phrasing_1 ?s"
    then obtain ds pre w post where "?s = pre @ w @ post" "w \<in> phrasing_1 ds"
      unfolding found_def occurs_def by blast
    then have "CHR ''o'' \<in> set ?s" using phrasing_1_of [of w ds] by (metis Un_iff set_append)
    then show False by simp
  qed
  from f2 nf1 show ?thesis unfolding first_phrasing_def by simp
qed

lemma extract_beyond_limit:
  "first_phrasing (py_lower s) name ds \<Longrightarrow> 4300 < length ds \<Longrightarrow>
   extract_experience_years_traced s = Inl Value_Error"
  using extract_first [of s name ds] by (simp add: years_and_method_Inl)

lemma long_number_lower:
  "py_lower (replicate 4301 CHR ''1'' @ '' years experience'') =
     replicate 4301 CHR ''1'' @ '' years experience''"
proof -
  have "lower_char CHR ''1'' = CHR ''1''" by code_simp
  moreover have "map lower_char '' years experience'' = '' years experience''" by code_simp
  ultimately show ?thesis by (simp add: py_lower_def)
qed

text \<open>
  C3.  For every text in which the number of the first phrasing that stands in it has at
  most 4300 digits, the number of years and the method that
  \<^verbatim>\<open>_extract_experience_years_traced\<close> returns are those of the reference algorithm, and no
  others are.  For \<^verbatim>\<open>5+ years experience\<close> the result is 5 by \<^verbatim>\<open>explicit_phrase_2\<close>; for a text
  with the years 2015, 2015 and 2020 and none of the phrasings it is 5 by
  \<^verbatim>\<open>year_span_fallback\<close>.
\<close>

theorem experience_years_reference:
  "(\<forall>s n m. (\<forall>name ds. first_phrasing (py_lower s) name ds \<longrightarrow> length ds \<le> 4300) \<longrightarrow>
      (years_and_method (extract_experience_years_traced s) = Inr (n, m)
         \<longleftrightarrow> reference_result s (n, m))) \<and>
   extract_experience_years_traced ''5+ years experience'' =
     Inr (5, Explicit_Phrase ''explicit_phrase_2'' explicit_phrase_2 ''5+ years experience'' 5) \<and>
   extract_experience_years_traced ''Acme 2015, Beta 2015 to 2020'' =
     Inr (5, Year_Span_Fallback [2015, 2020] 5)"
proof -
  have a: "years_and_method (extract_experience_years_traced s) = Inr (n, m)
         \<longleftrightarrow> reference_result s (n, m)"
    if h: "\<forall>name ds. first_phrasing (py_lower s) name ds \<longrightarrow> length ds \<le> 4300" for s n m
  proof (cases "\<exists>name ds. first_phrasing (py_lower s) name ds")
    case True
    then obtain name ds where f: "first_phrasing (py_lower s) name ds" by blast
    with h have "length ds \<le> 4300" by blast
    with extract_first [OF f]
    have e: "years_and_method (extract_experience_years_traced s) = Inr (decimal ds, name)" by simp
    have "reference_result s (n, m) \<longleftrightarrow> (n, m) = (decimal ds, name)"
      unfolding reference_result_def using f first_phrasing_unique [OF f] by blast
    with e show ?thesis by auto
  next
    case False
    then have n: "\<forall>name ds. \<not> first_phrasing (py_lower s) name ds" by blast
    have "reference_result s (n, m) \<longleftrightarrow> (n, m) = year_span s"
      unfolding reference_result_def using n by blast
    with extract_none [OF n] show ?thesis by auto
  qed
  have b: "extract_experience_years_traced ''5+ years experience'' =
     Inr (5, Explicit_Phrase ''explicit_phrase_2'' explicit_phrase_2 ''5+ years experience'' 5)"
    by code_simp
  have c: "extract_experience_years_traced ''Acme 2015, Beta 2015 to 2020'' =
     Inr (5, Year_Span_Fallback [2015, 2020] 5)"
    by code_simp
  from a b c show ?thesis by blast
qed

theorem experience_years_reference_witness:
  "years_and_method (extract_experience_years_traced ''Experience: 12 Years'')
     = Inr (12, ''explicit_phrase_3'') \<and>
   reference_result ''Experience: 12 Years'' (12, ''explicit_phrase_3'')"
proof -
  have h: "\<forall>name ds. first_phrasing (py_lower ''Experience: 12 Years'') name ds \<longrightarrow> length ds \<le> 4300"
  proof (intro allI impI)
    fix name ds assume "first_phrasing (py_lower ''Experience: 12 Years'') name ds"
    from first_phrasing_length [OF this] show "length ds \<le> 4300" by (simp add: py_lower_def)
  qed
  have e: "years_and_method (extract_experience_years_traced ''Experience: 12 Years'')
     = Inr (12, ''explicit_phrase_3'')" by code_simp
  from experience_years_reference h e show ?thesis by blast
qed

text \<open>
  C3, as stated, fails for a number of more than 4300 digits: in a text of 4301 digits
  followed by \<^verbatim>\<open> years experience\<close> the second phrasing is the first that stands, and the
  reference algorithm gives its number; \<^verbatim>\<open>int\<close> raises \<^verbatim>\<open>ValueError\<close>, and nothing is returned.
\<close>

theorem experience_years_long_number:
  "reference_result (replicate 4301 CHR ''1'' @ '' years experience'')
     (decimal (replicate 4301 CHR ''1''), ''explicit_phrase_2'') \<and>
   extract_experience_years_traced (replicate 4301 CHR ''1'' @ '' years experience'') =
     Inl Value_Error"
proof -
  let ?s = "replicate 4301 CHR ''1'' @ '' years experience''"
  have f: "first_phrasing (py_lower ?s) ''explicit_phrase_2'' (replicate 4301 CHR ''1'')"
    unfolding long_number_lower by (rule long_number_phrasing)
  then have "reference_result ?s (decimal (replicate 4301 CHR ''1''), ''explicit_phrase_2'')"
    unfolding reference_result_def by blast
  moreover from extract_beyond_limit [OF f]
  have "extract_experience_years_traced ?s = Inl Value_Error" by simp
  ultimately show ?thesis by simp
qed

subsection \<open>Education lines\<close>

lemma education_loop_eq:
  "education_loop lines edu =
   edu @ map py_strip (filter (\<lambda>line. list_ex (\<lambda>k. py_in k (py_lower line)) EDUCATION_KEYWORDS
                                    \<and> length (py_strip line) > 5) lines)"
  by (induction lines arbitrary: edu) (simp_all add: Let_def)

text \<open>
  C5, as amended.  The result is the first at most 5 lines of the text, in their order and
  trimmed, that contain one of the education keywords (case-insensitively) and whose
  trimmed form is more than 5 characters long, white space inside it counted.
\<close>

theorem education_lines:
  "extract_education s =
   take 5 (map py_strip
     (filter (\<lambda>line. (\<exists>k \<in> set EDUCATION_KEYWORDS. \<exists>pre post. py_lower line = pre @ k @ post)
                     \<and> length (py_strip line) > 5)
        (split_lines s)))"
  by (simp add: extract_education_def education_loop_eq list_ex_iff py_in_iff)

theorem education_lines_witness:
  "extract_education ''B.E. in CS\<newline>phd\<newline>  University of X  '' =
   take 5 (map py_strip
     (filter (\<lambda>line. (\<exists>k \<in> set EDUCATION_KEYWORDS. \<exists>pre post. py_lower line = pre @ k @ post)
                     \<and> length (py_strip line) > 5)
        (split_lines ''B.E. in CS\<newline>phd\<newline>  University of X  '')))"
  using education_lines [of "''B.E. in CS\<newline>phd\<newline>  University of X  ''"] .

text \<open>
  C5, as stated, fails: the line \<^verbatim>\<open>mba a b\<close> has 5 characters that are not white space,
  so the specification's reading returns nothing, and the code returns the line.
\<close>

theorem education_lines_counterexample:
  "extract_education ''mba a b'' = [''mba a b''] \<and> claimed_education ''mba a b'' = []"
proof -
  have "extract_education ''mba a b'' = [''mba a b'']" by code_simp
  moreover have "length (filter (\<lambda>c. \<not> is_space c) (py_strip ''mba a b'')) = 5" by code_simp
  ultimately show ?thesis by (simp add: claimed_education_def spec_education_line_def)
qed

subsection \<open>Ranking\<close>

lemma skill_regex_python_react:
  "set us = {''python'', ''react''} \<Longrightarrow>
   skill_regex us = [(''python'', wordp ''python''), (''react'', react_rx)]"
  by (simp add: skill_regex_def SKILLS_def react_rx_def)

lemma title_has_software_engineer:
  "py_in (py_lower ''software engineer'') (py_lower ''Senior Software Engineer'')"
  by code_simp

lemma title_has_no_mid: "\<not> py_in ''mid'' (py_lower ''Senior Software Engineer'')"
  by code_simp

lemma react_tag: "re_search True react_rx ''react'' \<noteq> None"
  by code_simp

text \<open>
  C1.  For a profile with the skills python and react, the job title software engineer
  and the seniority mid, a job titled \<^verbatim>\<open>Senior Software Engineer\<close> whose description holds
  the token \<^verbatim>\<open>Python\<close> and whose tags are \<^verbatim>\<open>["react"]\<close> is ranked with \<open>match_score\<close> 27
  and \<open>matching_skills\<close> python, react.
\<close>

theorem end_to_end_score:
  assumes p: "set (skills p) = {''python'', ''react''}"
      "set (job_titles p) = {''software engineer''}" "seniority p = ''mid''"
    and j: "title j = Some ''Senior Software Engineer''" "description j = Some d"
      "tags j = Some [''react'']" "err j = None"
    and d: "has_token ''Python'' d"
  shows "rank_jobs_by_resume [j] (Resume p) =
         [j\<lparr>match_score := 27, matching_skills := [''python'', ''react'']\<rparr>]"
proof -
  let ?b = "''Senior Software Engineer'' @ '' '' @ d @ '' react''"
  have blob: "blob j = ?b"
    by (simp add: blob_def j or_empty_def get_tags_def)
  have "py_lower ''Python'' = py_lower ''python''" by code_simp
  then have "has_token ''python'' d"
    using d has_token_lower [of "''Python''" "''python''" d] by blast
  then have "has_token ''python'' (''Senior Software Engineer '' @ d @ '' react'')"
    by (rule has_token_embed) simp_all
  then have tp: "has_token ''python'' ?b" by simp
  have tr: "has_token ''react'' ?b"
    by (rule has_tokenI [of _ "''Senior Software Engineer '' @ d @ '' ''" "''react''" "[]"]) simp_all
  have "re_search True (wordp ''python'') ?b \<noteq> None \<longleftrightarrow> has_token ''python'' ?b"
    by (rule wordp_search_iff) simp_all
  with tp have m1: "re_search True (wordp ''python'') (blob j) \<noteq> None" by (simp only: blob)
  have "re_search True (wordp ''react'') ?b \<noteq> None \<longleftrightarrow> has_token ''react'' ?b"
    by (rule wordp_search_iff) simp_all
  with tr have m2: "re_search True react_rx (blob j) \<noteq> None"
    unfolding react_rx_def re_search_Alt blob by blast
  have matching: "matching (skills p) j = [''python'', ''react'']"
    using m1 m2 by (simp add: matching_def skill_regex_python_react [OF p(1)])
  have tb: "title_bonus (job_titles p) j = 12"
    using title_has_software_engineer
    by (simp add: title_bonus_def list_ex_iff p(2) j or_empty_def del: py_in.simps)
  have sb: "seniority_bonus (seniority p) j = 0"
    using title_has_no_mid by (simp add: seniority_bonus_def p(3) j or_empty_def del: py_in.simps)
  have th: "tag_hits (skills p) j = [''react'']"
    using react_tag
    by (simp add: tag_hits_def tag_matches_def skill_regex_python_react [OF p(1)] get_tags_def j)
  have "score (Resume p) j = 27"
    by (simp add: score_def matching tb sb th)
  then show ?thesis
    by (simp add: rank_jobs_by_resume_def scored_copy_def matching j)
qed

lemma example_job_fields:
  "title example_job = Some ''Senior Software Engineer'' \<and>
   description example_job = Some ''We build services in Python.'' \<and>
   tags example_job = Some [''react''] \<and> err example_job = None"
  by code_simp

lemma example_description_token: "has_token ''Python'' ''We build services in Python.''"
  by (rule has_tokenI [of _ "''We build services in ''" "''Python''" "''.''"]) simp_all

theorem end_to_end_score_witness:
  "has_token ''Python'' ''We build services in Python.'' \<and>
   rank_jobs_by_resume [example_job] example_profile =
     [example_job\<lparr>match_score := 27, matching_skills := [''python'', ''react'']\<rparr>]"
  using end_to_end_score [of example_fields example_job "''We build services in Python.''"]
    example_job_fields example_description_token
  by (simp add: example_profile_def example_fields_def insert_commute)

lemma SKILLS_positive: "list_all (\<lambda>(c, p). c = ''java'' \<or> positive p) SKILLS"
  by code_simp

lemma positive_wordp: "positive (wordp ''java'')"
  by code_simp

lemma re_search_java_wordp:
  "re_search True java_rx s \<noteq> None \<longleftrightarrow> re_search True (wordp ''java'') s \<noteq> None"
proof -
  have e: "rm True java_rx st = rm True (wordp ''java'') st" for st
  proof (cases st)
    case (fields a b c)
    have "rm True (seqs [WordB, lit ''java'', WordB, NotAhead (lit ''script'')]) (a, b, c) =
          rm True (wordp ''java'') (a, b, c)"
      by (rule rm_word_not_ahead) simp_all
    then show ?thesis by (simp only: fields java_rx_def)
  qed
  show ?thesis unfolding re_search_Some_iff e ..
qed

lemma skill_search_extend:
  assumes "(c, p) \<in> set SKILLS" "re_search True p s \<noteq> None" "joins None s u"
  shows "re_search True p (s @ u) \<noteq> None"
proof (cases "c = ''java''")
  case True
  have "map_of SKILLS c = Some p" using assms(1) distinct_SKILLS by simp
  then have p: "p = java_rx" using True map_of_java by (simp add: java_rx_def)
  have "re_search True (wordp ''java'') (s @ u) \<noteq> None"
    using re_search_extend [OF positive_wordp _ assms(3)] assms(2)
    unfolding p re_search_java_wordp by blast
  then show ?thesis unfolding p re_search_java_wordp .
next
  case False
  then have "positive p" using SKILLS_positive assms(1) by (auto simp: list_all_iff)
  from re_search_extend [OF this assms(2,3)] show ?thesis .
qed

lemma py_join_snoc:
  "py_join sep (xs @ [x]) = (if xs = [] then x else py_join sep xs @ sep @ x)"
  by (induction sep xs rule: py_join.induct) auto

lemma blob_add_tag:
  "blob (add_tag t j) = blob j @ (if get_tags j = [] then t else '' '' @ t)"
  by (simp add: blob_def add_tag_def get_tags_def py_join_snoc)

lemma joins_blob: "joins None (blob j) (if get_tags j = [] then t else '' '' @ t)"
  by (simp add: joins_def blob_def prev_char_def word_before_def word_after_def)

lemma matching_add_tag:
  "(c, p) \<in> set SKILLS \<Longrightarrow> re_search True p (blob j) \<noteq> None \<Longrightarrow>
   re_search True p (blob (add_tag t j)) \<noteq> None"
  unfolding blob_add_tag by (rule skill_search_extend [OF _ _ joins_blob])

lemma filter_length_mono:
  "(\<And>x. x \<in> set xs \<Longrightarrow> P x \<Longrightarrow> Q x) \<Longrightarrow> length (filter P xs) \<le> length (filter Q xs)"
  by (induction xs) (auto simp: le_SucI)

lemma filter_mono_eq:
  "(\<And>x. x \<in> set xs \<Longrightarrow> P x \<Longrightarrow> Q x) \<Longrightarrow> length (filter Q xs) = length (filter P xs) \<Longrightarrow>
   filter Q xs = filter P xs"
proof (induction xs)
  case Nil
  then show ?case by simp
next
  case (Cons x xs)
  have le: "length (filter P xs) \<le> length (filter Q xs)"
    by (rule filter_length_mono) (simp add: Cons.prems(1))
  show ?case
  proof (cases "Q x")
    case True
    show ?thesis
    proof (cases "P x")
      case True
      then show ?thesis using Cons \<open>Q x\<close> by simp
    next
      case False
      then have "Suc (length (filter Q xs)) = length (filter P xs)"
        using Cons.prems(2) True by simp
      with le show ?thesis by simp
    qed
  next
    case False
    then have "\<not> P x" using Cons.prems(1) by auto
    then show ?thesis using Cons False by simp
  qed
qed

lemma skill_regex_subset: "set (skill_regex us) \<subseteq> set SKILLS"
  by (auto simp: skill_regex_def)

lemma title_add_tag [simp]: "title (add_tag t j) = title j"
  by (simp add: add_tag_def)

lemma get_tags_add_tag [simp]: "get_tags (add_tag t j) = get_tags j @ [t]"
  by (simp add: add_tag_def get_tags_def)

text \<open>
  C2, as amended.  Adding one tag that matches one of the profile's skill rules at the end
  of a job's tags, everything else unchanged, never lowers the \<open>match_score\<close>: it raises it
  by at least 3, namely by 3 for the tag and by 6 for every skill of the profile that the
  search blob matches only with the new tag in it; the change is exactly 3 exactly when the
  matching skills stay the same.
\<close>

theorem added_tag_score:
  assumes "tag_matches (get_skills rd) t"
  shows "match_score (scored_copy rd j) + 3 \<le> match_score (scored_copy rd (add_tag t j)) \<and>
    match_score (scored_copy rd (add_tag t j)) =
      match_score (scored_copy rd j) + 3
      + 6 * (int (length (matching (get_skills rd) (add_tag t j)))
             - int (length (matching (get_skills rd) j))) \<and>
    (match_score (scored_copy rd (add_tag t j)) = match_score (scored_copy rd j) + 3
       \<longleftrightarrow> matching (get_skills rd) (add_tag t j) = matching (get_skills rd) j)"
proof -
  let ?us = "get_skills rd"
  let ?P = "\<lambda>(s, rx). re_search True rx (blob j) \<noteq> None"
  let ?Q = "\<lambda>(s, rx). re_search True rx (blob (add_tag t j)) \<noteq> None"
  have mono: "?Q x" if "x \<in> set (skill_regex ?us)" "?P x" for x
    using that skill_regex_subset [of ?us] matching_add_tag [of "fst x" "snd x" j t]
    by (cases x) auto
  have le: "length (matching ?us j) \<le> length (matching ?us (add_tag t j))"
    unfolding matching_def length_map by (rule filter_length_mono) (rule mono)
  have eq: "matching ?us (add_tag t j) = matching ?us j"
    if "length (matching ?us (add_tag t j)) = length (matching ?us j)"
  proof -
    have "filter ?Q (skill_regex ?us) = filter ?P (skill_regex ?us)"
      by (rule filter_mono_eq) (use that mono in \<open>simp_all add: matching_def\<close>)
    then show ?thesis by (simp add: matching_def)
  qed
  have th: "tag_hits ?us (add_tag t j) = tag_hits ?us j @ [t]"
    using assms by (simp add: tag_hits_def)
  have sc: "score rd (add_tag t j) = score rd j + 3
      + 6 * (int (length (matching ?us (add_tag t j))) - int (length (matching ?us j)))"
    by (simp add: score_def th title_bonus_def seniority_bonus_def algebra_simps)
  have ms: "match_score (scored_copy rd x) = score rd x" for x
    by (simp add: scored_copy_def)
  show ?thesis
    unfolding ms using sc le eq by auto
qed

lemma example_tag_matches: "tag_matches (get_skills example_profile) ''react''"
  by code_simp

theorem added_tag_score_witness:
  "tag_matches (get_skills example_profile) ''react'' \<and>
   match_score (scored_copy example_profile plain_job) + 3
     \<le> match_score (scored_copy example_profile (add_tag ''react'' plain_job))"
  using added_tag_score [OF example_tag_matches, of plain_job] example_tag_matches by blast

text \<open>
  C2, as stated, fails: for the example profile, the tag \<^verbatim>\<open>react\<close> added to a job without
  tags raises the score from 0 to 9, since the tag is part of the search blob and the skill
  \<^verbatim>\<open>react\<close> now matches there too.
\<close>

theorem added_tag_changes_score_by_nine:
  "tag_matches (get_skills example_profile) ''react'' \<and>
   match_score (scored_copy example_profile plain_job) = 0 \<and>
   match_score (scored_copy example_profile (add_tag ''react'' plain_job)) = 9"
  by code_simp

text \<open>
  The place of the new tag matters: between the tags \<^verbatim>\<open>machine\<close> and \<^verbatim>\<open>learning\<close> the tag
  \<^verbatim>\<open>react\<close> separates the two words in the search blob, and the score falls from 12 to 9.
\<close>

lemma tag_between_two_tags_lowers_score:
  "tag_matches (get_skills ml_profile) ''react'' \<and>
   match_score (scored_copy ml_profile ml_job) = 12 \<and>
   match_score (scored_copy ml_profile (ml_job\<lparr>tags := Some [''machine'', ''react'', ''learning'']\<rparr>)) = 9"
  by code_simp

subsection \<open>The sort\<close>

lemma set_insert_desc: "set (insert_desc key x ys) = insert x (set ys)"
  by (induction ys) auto

lemma sorted_insert_desc:
  "sorted_wrt (\<lambda>a b. key a \<ge> key b) ys \<Longrightarrow>
   sorted_wrt (\<lambda>a b. key a \<ge> key b) (insert_desc key x ys)"
  by (induction ys) (auto simp: set_insert_desc)

lemma sorted_sort_desc: "sorted_wrt (\<lambda>a b. key a \<ge> key b) (sort_desc key xs)"
  by (induction xs) (auto intro: sorted_insert_desc)

lemma set_sort_desc: "set (sort_desc key xs) = set xs"
  by (induction xs) (auto simp: set_insert_desc)

lemma length_insert_desc: "length (insert_desc key x ys) = Suc (length ys)"
  by (induction ys) auto

lemma length_sort_desc: "length (sort_desc key xs) = length xs"
  by (induction xs) (auto simp: length_insert_desc)

lemma filter_insert_desc_other:
  "key x \<noteq> k \<Longrightarrow>
   filter (\<lambda>j. key j = k) (insert_desc key x ys) = filter (\<lambda>j. key j = k) ys"
  by (induction ys) auto

lemma filter_insert_desc_same:
  "sorted_wrt (\<lambda>a b. key a \<ge> key b) ys \<Longrightarrow>
   filter (\<lambda>j. key j = key x) (insert_desc key x ys) = x # filter (\<lambda>j. key j = key x) ys"
  by (induction ys) auto

lemma filter_sort_desc:
  "filter (\<lambda>j. key j = k) (sort_desc key xs) = filter (\<lambda>j. key j = k) xs"
proof (induction xs)
  case Nil
  then show ?case by simp
next
  case (Cons x xs)
  show ?case
  proof (cases "key x = k")
    case True
    then show ?thesis
      using Cons filter_insert_desc_same [OF sorted_sort_desc, of key x xs] by simp
  next
    case False
    then show ?thesis using Cons by (simp add: filter_insert_desc_other)
  qed
qed

lemma map_insert_desc:
  "map f (insert_desc (\<lambda>a. key (f a)) x ys) = insert_desc key (f x) (map f ys)"
  by (induction ys) auto

lemma map_sort_desc: "map f (sort_desc (\<lambda>a. key (f a)) xs) = sort_desc key (map f xs)"
  by (induction xs) (auto simp: map_insert_desc)

lemma scored_loop_eq:
  "scored_loop rd jobs acc = acc @ map (scored_copy rd) (filter (\<lambda>j. err j = None) jobs)"
  by (induction jobs arbitrary: acc) auto

text \<open>
  C7.  For a profile that is not an error, the ranked list is in descending order of
  \<open>match_score\<close>, and for every score \<open>k\<close> the jobs with that score come out in the order
  in which their originals stand in the input list: the sort is stable.
\<close>

theorem rank_sorted_stable:
  "\<not> has_error rd \<Longrightarrow>
   sorted_wrt (\<lambda>a b. match_score a \<ge> match_score b) (rank_jobs_by_resume jobs rd) \<and>
   (\<forall>k. filter (\<lambda>j. match_score j = k) (rank_jobs_by_resume jobs rd)
        = filter (\<lambda>j. match_score j = k)
            (map (scored_copy rd) (filter (\<lambda>j. err j = None) jobs)))"
  by (cases rd) (auto simp: rank_jobs_by_resume_def sorted_sort_desc filter_sort_desc scored_loop_eq)

theorem rank_sorted_stable_witness:
  "\<not> has_error example_profile \<and>
   sorted_wrt (\<lambda>a b. match_score a \<ge> match_score b)
     (rank_jobs_by_resume [plain_job, example_job, plain_job] example_profile) \<and>
   (\<forall>k. filter (\<lambda>j. match_score j = k)
          (rank_jobs_by_resume [plain_job, example_job, plain_job] example_profile)
        = filter (\<lambda>j. match_score j = k)
            (map (scored_copy example_profile)
               (filter (\<lambda>j. err j = None) [plain_job, example_job, plain_job])))"
  using rank_sorted_stable [of example_profile "[plain_job, example_job, plain_job]"]
  by (simp add: example_profile_def)

subsection \<open>Ranking in the store\<close>

lemma get_dict_less: "get_dict h a = Some j \<Longrightarrow> a < length h"
  by (simp add: get_dict_def split: if_splits)

lemma get_list_less: "get_list h a = Some xs \<Longrightarrow> a < length h"
  by (simp add: get_list_def split: if_splits)

lemma get_dict_append: "a < length h \<Longrightarrow> get_dict (h @ ext) a = get_dict h a"
  by (simp add: get_dict_def nth_append)

lemma get_list_append: "a < length h \<Longrightarrow> get_list (h @ ext) a = get_list h a"
  by (simp add: get_list_def nth_append)

lemma get_dict_new: "get_dict (h @ [Dict_Obj j]) (length h) = Some j"
  by (simp add: get_dict_def)

lemma get_dict_update_other: "a \<noteq> b \<Longrightarrow> get_dict (h[b := x]) a = get_dict h a"
  by (simp add: get_dict_def)

lemma get_dict_update_dict: "a < length h \<Longrightarrow> get_dict (h[a := Dict_Obj j]) a = Some j"
  by (simp add: get_dict_def)

lemma get_list_update_list: "a < length h \<Longrightarrow> get_list (h[a := List_Obj xs]) a = Some xs"
  by (simp add: get_list_def)

lemma get_list_update_other: "a \<noteq> b \<Longrightarrow> get_list (h[b := x]) a = get_list h a"
  by (simp add: get_list_def)

lemma dicts_at_cong:
  "(\<And>a. a \<in> set xs \<Longrightarrow> get_dict h' a = get_dict h a) \<Longrightarrow> dicts_at h' xs = dicts_at h xs"
  by (induction xs) (auto split: option.splits)

lemma dicts_at_append:
  "dicts_at h (xs @ ys) =
     (case dicts_at h xs of
        None \<Rightarrow> None
      | Some a \<Rightarrow> (case dicts_at h ys of None \<Rightarrow> None | Some b \<Rightarrow> Some (a @ b)))"
  by (induction xs) (auto split: option.splits)

lemma dicts_at_None:
  "dicts_at h xs = None \<longleftrightarrow> (\<exists>a \<in> set xs. get_dict h a = None)"
  by (induction xs) (auto split: option.splits)

lemma dicts_at_Some:
  "dicts_at h xs = Some js \<longleftrightarrow>
   (\<forall>a \<in> set xs. get_dict h a \<noteq> None) \<and> js = map (\<lambda>a. the (get_dict h a)) xs"
proof (induction xs arbitrary: js)
  case Nil
  then show ?case by auto
next
  case (Cons a xs)
  show ?case
  proof (cases "get_dict h a")
    case None
    then show ?thesis by simp
  next
    case (Some j)
    show ?thesis
    proof (cases "dicts_at h xs")
      case None
      then show ?thesis using Some dicts_at_None [of h xs] by auto
    next
      case (Some js')
      then show ?thesis using \<open>get_dict h a = Some j\<close> Cons [of js'] by auto
    qed
  qed
qed

lemma loop_body_eq:
  assumes "get_dict h a = Some job" "get_list h scored = Some acc"
  shows "loop_body rd job a scored h =
         Some ((h @ [Dict_Obj (scored_copy rd job)])[scored := List_Obj (acc @ [length h])])"
proof -
  have s: "scored < length h" using assms(2) by (rule get_list_less)
  have c: "dict_copy a h = Some (length h, h @ [Dict_Obj job])"
    by (simp add: dict_copy_def alloc_def assms(1))
  have u1: "set_item (length h) (\<lambda>d. d\<lparr>match_score := score rd job\<rparr>) (h @ [Dict_Obj job])
            = Some (h @ [Dict_Obj (job\<lparr>match_score := score rd job\<rparr>)])"
    by (simp add: set_item_def get_dict_new)
  have u2: "set_item (length h) (\<lambda>d. d\<lparr>matching_skills := matching (get_skills rd) job\<rparr>)
              (h @ [Dict_Obj (job\<lparr>match_score := score rd job\<rparr>)])
            = Some (h @ [Dict_Obj (scored_copy rd job)])"
    by (simp add: set_item_def get_dict_new scored_copy_def)
  have ap: "list_append scored (length h) (h @ [Dict_Obj (scored_copy rd job)])
            = Some ((h @ [Dict_Obj (scored_copy rd job)])[scored := List_Obj (acc @ [length h])])"
    using s assms(2) by (simp add: list_append_def get_list_append)
  show ?thesis
    by (simp add: loop_body_def c u1 u2 ap)
qed

lemma scored_loop_heap_correct:
  assumes "dicts_at h as = Some js" "get_list h scored = Some acc" "dicts_at h acc = Some accjs"
    "\<forall>a \<in> set as. a < scored" "\<forall>a \<in> set acc. scored < a"
  shows "\<exists>h' new. scored_loop_heap rd as scored h = Some h' \<and> take scored h' = take scored h \<and>
           get_list h' scored = Some (acc @ new) \<and> (\<forall>a \<in> set new. scored < a) \<and>
           dicts_at h' (acc @ new) =
             Some (accjs @ map (scored_copy rd) (filter (\<lambda>j. err j = None) js))"
  using assms
proof (induction as arbitrary: h acc accjs js)
  case Nil
  then have "scored_loop_heap rd [] scored h = Some h \<and> take scored h = take scored h \<and>
      get_list h scored = Some (acc @ []) \<and> (\<forall>a \<in> set []. scored < a) \<and>
      dicts_at h (acc @ []) = Some (accjs @ map (scored_copy rd) (filter (\<lambda>j. err j = None) js))"
    by simp
  then show ?case by blast
next
  case (Cons a as)
  from Cons.prems(1) obtain job js' where job: "get_dict h a = Some job"
    and js': "dicts_at h as = Some js'" and js: "js = job # js'"
    by (auto split: option.splits)
  have s: "scored < length h" using Cons.prems(2) by (rule get_list_less)
  show ?case
  proof (cases "err job = None")
    case False
    from Cons.IH [OF js' Cons.prems(2,3)] Cons.prems(4,5)
    obtain h' new where "scored_loop_heap rd as scored h = Some h'" "take scored h' = take scored h"
      "get_list h' scored = Some (acc @ new)" "\<forall>a \<in> set new. scored < a"
      "dicts_at h' (acc @ new) = Some (accjs @ map (scored_copy rd) (filter (\<lambda>j. err j = None) js'))"
      by auto
    then have "scored_loop_heap rd (a # as) scored h = Some h' \<and> take scored h' = take scored h \<and>
      get_list h' scored = Some (acc @ new) \<and> (\<forall>a \<in> set new. scored < a) \<and>
      dicts_at h' (acc @ new) = Some (accjs @ map (scored_copy rd) (filter (\<lambda>j. err j = None) js))"
      using False job js by simp
    then show ?thesis by blast
  next
    case True
    let ?n = "length h"
    let ?h4 = "(h @ [Dict_Obj (scored_copy rd job)])[scored := List_Obj (acc @ [?n])]"
    have body: "loop_body rd job a scored h = Some ?h4"
      by (rule loop_body_eq [OF job Cons.prems(2)])
    have old: "get_dict ?h4 b = get_dict h b" if "b < ?n" "b \<noteq> scored" for b
      using that by (simp add: get_dict_update_other get_dict_append)
    have new: "get_dict ?h4 ?n = Some (scored_copy rd job)"
      using s by (simp add: get_dict_update_other get_dict_new)
    have as_lt: "b < ?n \<and> b \<noteq> scored" if "b \<in> set as" for b
      using that Cons.prems(4) s by auto
    have acc_lt: "b < ?n \<and> b \<noteq> scored" if "b \<in> set acc" for b
      using that Cons.prems(3,5) by (auto simp: dicts_at_Some dest!: get_dict_less)
    have 1: "dicts_at ?h4 as = Some js'"
      using js' dicts_at_cong [of as ?h4 h] old as_lt by simp
    have 2: "get_list ?h4 scored = Some (acc @ [?n])"
      using s by (simp add: get_list_update_list)
    have "dicts_at ?h4 acc = Some accjs"
      using Cons.prems(3) dicts_at_cong [of acc ?h4 h] old acc_lt by simp
    then have 3: "dicts_at ?h4 (acc @ [?n]) = Some (accjs @ [scored_copy rd job])"
      by (simp add: dicts_at_append new)
    have 4: "\<forall>b \<in> set as. b < scored" using Cons.prems(4) by simp
    have 5: "\<forall>b \<in> set (acc @ [?n]). scored < b" using Cons.prems(5) s by simp
    from Cons.IH [OF 1 2 3 4 5]
    obtain h' new where r: "scored_loop_heap rd as scored ?h4 = Some h'"
      "take scored h' = take scored ?h4"
      "get_list h' scored = Some ((acc @ [?n]) @ new)" "\<forall>a \<in> set new. scored < a"
      "dicts_at h' ((acc @ [?n]) @ new) =
         Some ((accjs @ [scored_copy rd job]) @ map (scored_copy rd) (filter (\<lambda>j. err j = None) js'))"
      by auto
    have fr: "take scored ?h4 = take scored h" using s by simp
    have "scored_loop_heap rd (a # as) scored h = Some h' \<and> take scored h' = take scored h \<and>
      get_list h' scored = Some (acc @ (?n # new)) \<and> (\<forall>a \<in> set (?n # new). scored < a) \<and>
      dicts_at h' (acc @ (?n # new)) =
        Some (accjs @ map (scored_copy rd) (filter (\<lambda>j. err j = None) js))"
      using r fr s True job js body by simp
    then show ?thesis by blast
  qed
qed

lemma insert_desc_cong:
  "key x = key' x \<Longrightarrow> (\<And>y. y \<in> set ys \<Longrightarrow> key y = key' y) \<Longrightarrow>
   insert_desc key x ys = insert_desc key' x ys"
  by (induction ys) auto

lemma sort_desc_cong:
  "(\<And>x. x \<in> set xs \<Longrightarrow> key x = key' x) \<Longrightarrow> sort_desc key xs = sort_desc key' xs"
proof (induction xs)
  case Nil
  then show ?case by simp
next
  case (Cons x xs)
  then have "sort_desc key xs = sort_desc key' xs" by simp
  then show ?case
    using Cons.prems insert_desc_cong [of key x key' "sort_desc key' xs"]
    by (simp add: set_sort_desc)
qed

lemma dicts_at_sort:
  assumes "dicts_at h xs = Some js"
  shows "dicts_at h (sort_desc (key_at h) xs) = Some (sort_desc match_score js)"
proof -
  let ?f = "\<lambda>a. the (get_dict h a)"
  from assms have v: "\<forall>a \<in> set xs. get_dict h a \<noteq> None" and js: "js = map ?f xs"
    by (simp_all add: dicts_at_Some)
  have k: "sort_desc (key_at h) xs = sort_desc (\<lambda>a. match_score (?f a)) xs"
    by (rule sort_desc_cong) (use v in \<open>auto simp: key_at_def\<close>)
  have "dicts_at h (sort_desc (key_at h) xs) = Some (map ?f (sort_desc (key_at h) xs))"
    using v by (simp add: dicts_at_Some set_sort_desc)
  also have "map ?f (sort_desc (key_at h) xs) = sort_desc match_score js"
    unfolding k js by (rule map_sort_desc)
  finally show ?thesis .
qed

lemma rank_jobs_by_resume_eq:
  "\<not> has_error rd \<Longrightarrow>
   rank_jobs_by_resume js rd =
     sort_desc match_score (map (scored_copy rd) (filter (\<lambda>j. err j = None) js))"
  by (cases rd) (auto simp: rank_jobs_by_resume_def scored_loop_eq)

text \<open>
  C9.  Let the list at the address \<open>jobs\<close> hold the jobs \<open>js\<close>, and let the profile be no
  error.  Then ranking returns a list whose jobs are those of \<open>rank_jobs_by_resume js rd\<close>;
  every job in it has no \<^verbatim>\<open>"error"\<close> key and is an input job without that key in which at
  most \<open>match_score\<close> and \<open>matching_skills\<close> differ, and there is one for each such input
  job; unless \<open>js\<close> is empty, the list and all its jobs are new objects; and every object
  that was in the store before the call, the input list and its jobs among them, is in it
  unchanged.
\<close>

theorem rank_heap_frame:
  assumes "jobs_at h jobs = Some js" and "\<not> has_error rd"
  shows "\<exists>res h' as out.
     rank_jobs_by_resume_heap jobs rd h = Some (res, h') \<and>
     take (length h) h' = h \<and>
     get_list h' res = Some as \<and> dicts_at h' as = Some out \<and>
     out = rank_jobs_by_resume js rd \<and>
     (js \<noteq> [] \<longrightarrow> res = length h \<and> (\<forall>a \<in> set as. length h < a)) \<and>
     (\<forall>ob \<in> set out. err ob = None \<and>
        (\<exists>j \<in> set js. err j = None \<and>
           ob = j\<lparr>match_score := match_score ob, matching_skills := matching_skills ob\<rparr>)) \<and>
     length out = length (filter (\<lambda>j. err j = None) js)"
proof -
  from assms(1) obtain ins where ins: "get_list h jobs = Some ins" and d: "dicts_at h ins = Some js"
    by (auto simp: jobs_at_def split: option.splits)
  have nf: "\<not> resume_falsy rd" by (cases rd) simp_all
  let ?out = "rank_jobs_by_resume js rd"
  have out: "?out = sort_desc match_score (map (scored_copy rd) (filter (\<lambda>j. err j = None) js))"
    by (rule rank_jobs_by_resume_eq [OF assms(2)])
  have p1: "\<forall>ob \<in> set ?out. err ob = None \<and>
        (\<exists>j \<in> set js. err j = None \<and>
           ob = j\<lparr>match_score := match_score ob, matching_skills := matching_skills ob\<rparr>)"
    unfolding out by (auto simp: set_sort_desc scored_copy_def)
  have p2: "length ?out = length (filter (\<lambda>j. err j = None) js)"
    unfolding out by (simp add: length_sort_desc)
  show ?thesis
  proof (cases "ins = []")
    case True
    then have js: "js = []" using d by simp
    have "rank_jobs_by_resume_heap jobs rd h = Some (jobs, h)"
      by (simp add: rank_jobs_by_resume_heap_def ins True)
    moreover have "?out = []" by (simp add: js rank_jobs_by_resume_def)
    ultimately have "rank_jobs_by_resume_heap jobs rd h = Some (jobs, h) \<and>
       take (length h) h = h \<and> get_list h jobs = Some ins \<and> dicts_at h ins = Some ?out \<and>
       ?out = rank_jobs_by_resume js rd \<and>
       (js \<noteq> [] \<longrightarrow> jobs = length h \<and> (\<forall>a \<in> set ins. length h < a))"
      using ins d js by simp
    with p1 p2 show ?thesis by blast
  next
    case False
    let ?n = "length h"
    let ?h1 = "h @ [List_Obj []]"
    have a4: "\<forall>a \<in> set ins. a < ?n"
      using d by (auto simp: dicts_at_Some dest!: get_dict_less)
    have "dicts_at ?h1 ins = dicts_at h ins"
      by (rule dicts_at_cong) (use a4 in \<open>simp add: get_dict_append\<close>)
    then have a1: "dicts_at ?h1 ins = Some js" using d by simp
    have a2: "get_list ?h1 ?n = Some []" by (simp add: get_list_def)
    from scored_loop_heap_correct [OF a1 a2 _ a4, of "[]" rd]
    obtain h2 new where l: "scored_loop_heap rd ins ?n ?h1 = Some h2"
      and f2: "take ?n h2 = take ?n ?h1" and g2: "get_list h2 ?n = Some new"
      and fresh: "\<forall>a \<in> set new. ?n < a"
      and d2: "dicts_at h2 new = Some (map (scored_copy rd) (filter (\<lambda>j. err j = None) js))"
      by auto
    let ?srt = "sort_desc (key_at h2) new"
    let ?h3 = "h2[?n := List_Obj ?srt]"
    have s: "list_sort_desc ?n h2 = Some ?h3"
      by (simp add: list_sort_desc_def g2 d2)
    have r: "rank_jobs_by_resume_heap jobs rd h = Some (?n, ?h3)"
      using False nf assms(2) by (simp add: rank_jobs_by_resume_heap_def ins alloc_def l s)
    have n2: "?n < length h2" using g2 by (rule get_list_less)
    have f3: "take ?n ?h3 = h" using f2 by simp
    have g3: "get_list ?h3 ?n = Some ?srt" using n2 by (simp add: get_list_update_list)
    have "dicts_at h2 ?srt = Some ?out"
      unfolding out using dicts_at_sort [OF d2] .
    moreover have "dicts_at ?h3 ?srt = dicts_at h2 ?srt"
      by (rule dicts_at_cong) (use fresh in \<open>auto simp: set_sort_desc get_dict_update_other\<close>)
    ultimately have d3: "dicts_at ?h3 ?srt = Some ?out" by simp
    have "rank_jobs_by_resume_heap jobs rd h = Some (?n, ?h3) \<and>
       take (length h) ?h3 = h \<and> get_list ?h3 ?n = Some ?srt \<and> dicts_at ?h3 ?srt = Some ?out \<and>
       ?out = rank_jobs_by_resume js rd \<and>
       (js \<noteq> [] \<longrightarrow> ?n = length h \<and> (\<forall>a \<in> set ?srt. length h < a))"
      using r f3 g3 d3 fresh by (simp add: set_sort_desc)
    with p1 p2 show ?thesis by blast
  qed
qed

lemma example_heap_jobs: "jobs_at example_heap 3 = Some [plain_job, error_job, example_job]"
  by (simp add: jobs_at_def example_heap_def get_list_def get_dict_def)

theorem rank_heap_frame_witness:
  "jobs_at example_heap 3 = Some [plain_job, error_job, example_job] \<and>
   \<not> has_error example_profile \<and>
   (\<exists>res h' as out.
     rank_jobs_by_resume_heap 3 example_profile example_heap = Some (res, h') \<and>
     take (length example_heap) h' = example_heap \<and>
     get_list h' res = Some as \<and> dicts_at h' as = Some out \<and>
     out = rank_jobs_by_resume [plain_job, error_job, example_job] example_profile \<and>
     res = length example_heap \<and> (\<forall>a \<in> set as. length example_heap < a) \<and>
     (\<forall>ob \<in> set out. err ob = None) \<and> length out = 2)"
proof -
  have e: "\<not> has_error example_profile" by (simp add: example_profile_def)
  have n: "length (filter (\<lambda>j. err j = None) [plain_job, error_job, example_job]) = 2"
    by code_simp
  from rank_heap_frame [OF example_heap_jobs e] obtain res h' as out where
    "rank_jobs_by_resume_heap 3 example_profile example_heap = Some (res, h')"
    "take (length example_heap) h' = example_heap"
    "get_list h' res = Some as" "dicts_at h' as = Some out"
    "out = rank_jobs_by_resume [plain_job, error_job, example_job] example_profile"
    "res = length example_heap \<and> (\<forall>a \<in> set as. length example_heap < a)"
    "\<forall>ob \<in> set out. err ob = None" "length out = 2"
    using n by auto
  then show ?thesis using example_heap_jobs e by blast
qed

text \<open>
  C8.  When the profile is a parse error, or the list of jobs is empty, the list is
  returned as it is: the value of ranking is the list given, and on references the address
  returned is the address given and the store is left as it was.
\<close>

theorem rank_pass_through:
  assumes "has_error rd \<or> js = []"
  shows "rank_jobs_by_resume js rd = js \<and>
         (\<forall>h jobs. jobs_at h jobs = Some js \<longrightarrow>
            rank_jobs_by_resume_heap jobs rd h = Some (jobs, h))"
proof -
  have a: "rank_jobs_by_resume js rd = js"
    using assms by (auto simp: rank_jobs_by_resume_def)
  have b: "rank_jobs_by_resume_heap jobs rd h = Some (jobs, h)" if "jobs_at h jobs = Some js" for h jobs
  proof -
    from that obtain ins where ins: "get_list h jobs = Some ins" and d: "dicts_at h ins = Some js"
      by (auto simp: jobs_at_def split: option.splits)
    have "has_error rd \<or> ins = []"
      using assms d by (auto simp: dicts_at_Some)
    then show ?thesis by (auto simp: rank_jobs_by_resume_heap_def ins)
  qed
  from a b show ?thesis by blast
qed

theorem rank_pass_through_witness:
  "has_error (Resume_Error ''File not found: resume.pdf'') \<and>
   rank_jobs_by_resume [plain_job, error_job, example_job] (Resume_Error ''File not found: resume.pdf'')
     = [plain_job, error_job, example_job] \<and>
   rank_jobs_by_resume_heap 3 (Resume_Error ''File not found: resume.pdf'') example_heap
     = Some (3, example_heap)"
proof -
  have e: "has_error (Resume_Error ''File not found: resume.pdf'')
           \<or> [plain_job, error_job, example_job] = []"
    by simp
  from rank_pass_through [OF e] example_heap_jobs show ?thesis by simp
qed

end
